theory Spec2Isabelle
  imports Main "HOL-Library.AList" "HOL-Library.Word"
begin

section \<open>The directory watcher of laumann/goutil\<close>

text \<open>
  The repository holds two variants of one polling directory watcher. The first
  (\<^verbatim>\<open>scan1\<close>) walks or globs inside the scan function; the second (\<^verbatim>\<open>scan2\<close>)
  reads pairs from an installed scanner function (\<^verbatim>\<open>globScanner\<close> or \<^verbatim>\<open>recScanner\<close>).
  Both keep a map from path to file metadata, compare a fresh traversal with it, and
  report Added, Changed and Deleted events to a list of observer channels.

  What the code takes from the Go standard library is the environment of the model:
  \<^verbatim>\<open>filepath.Match\<close>, \<^verbatim>\<open>filepath.Join\<close>, \<^verbatim>\<open>filepath.Glob\<close> and \<^verbatim>\<open>os.Stat\<close> are
  fields of the record \<open>env\<close>, and the directory tree that \<^verbatim>\<open>filepath.Walk\<close> reads
  through \<^verbatim>\<open>os.Lstat\<close> and \<^verbatim>\<open>readDirNames\<close> is a value of the datatype \<open>fsnode\<close>.
\<close>

subsection \<open>Values of the standard library\<close>

text \<open>
  \<^verbatim>\<open>os.FileInfo\<close> is an interface; the watcher calls \<^verbatim>\<open>Name()\<close>, \<^verbatim>\<open>IsDir()\<close> and
  \<^verbatim>\<open>ModTime()\<close> on it. A value of the interface may be nil: that is \<open>None\<close> of
  \<open>FileInfo option\<close>, and a method call on it is a run-time panic.
\<close>

record FileInfo =
  Name :: string
  Size :: int
  ModTime :: int
  IsDir :: bool

datatype error = SkipDir | SkipAll | SysError string | Errorf string

text \<open>A computation that may end in a run-time panic (a nil dereference here).\<close>

datatype 'a outcome = Panic | Done 'a

text \<open>
  One entry of the directory tree: the result of \<^verbatim>\<open>os.Lstat\<close> on it, the error of
  \<^verbatim>\<open>readDirNames\<close> on it (if any), and the entries \<^verbatim>\<open>readDirNames\<close> lists, each
  with its name. The last two are read only when the entry is a directory.
\<close>

datatype fsnode =
  Node (lstat: "error + FileInfo") (readErr: "error option") (entries: "(string \<times> fsnode) list")

record env =
  Match :: "string \<Rightarrow> string \<Rightarrow> error + bool"
  Join :: "string \<Rightarrow> string \<Rightarrow> string"
  Glob :: "string \<Rightarrow> error + string list"
  Stat :: "string \<Rightarrow> error + FileInfo"
  Tree :: "string \<Rightarrow> fsnode"

subsection \<open>\<^verbatim>\<open>filepath.Walk\<close>\<close>

text \<open>
  The walk function is called with the path, the metadata (nil when \<^verbatim>\<open>Lstat\<close>
  failed) and the error met at that entry; it returns an error or nil. It mutates
  the state of its closure, threaded here as \<open>'s\<close>, and it may panic.
\<close>

type_synonym 's WalkFunc =
  "string \<Rightarrow> FileInfo option \<Rightarrow> error option \<Rightarrow> 's \<Rightarrow> (error option \<times> 's) outcome"

text \<open>
  \<^verbatim>\<open>walk\<close> of \<^verbatim>\<open>path/filepath\<close>, as the standard library has it now: a
  non-directory is passed to the walk function;
  a directory is passed with the error of reading it, and its entries are visited only
  if neither that error nor the function's result is non-nil. An entry whose
  \<^verbatim>\<open>Lstat\<close> fails is passed with nil metadata. A non-nil result other than
  \<^verbatim>\<open>SkipDir\<close> ends the walk.
\<close>

fun walk :: "(string \<Rightarrow> string \<Rightarrow> string) \<Rightarrow> 's WalkFunc \<Rightarrow> string \<Rightarrow> FileInfo \<Rightarrow>
    error option \<Rightarrow> (string \<times> fsnode) list \<Rightarrow> 's \<Rightarrow> (error option \<times> 's) outcome"
and walk_names :: "(string \<Rightarrow> string \<Rightarrow> string) \<Rightarrow> 's WalkFunc \<Rightarrow> string \<Rightarrow>
    (string \<times> fsnode) list \<Rightarrow> 's \<Rightarrow> (error option \<times> 's) outcome"
where
  "walk J walkFn p info err names s =
     (if \<not> IsDir info then walkFn p (Some info) None s
      else (case walkFn p (Some info) err s of
              Panic \<Rightarrow> Panic
            | Done (err1, s1) \<Rightarrow>
                if err \<noteq> None \<or> err1 \<noteq> None then Done (err1, s1)
                else walk_names J walkFn p names s1))"
| "walk_names J walkFn p [] s = Done (None, s)"
| "walk_names J walkFn p ((name, Node (Inl err) re es) # rest) s =
     (case walkFn (J p name) None (Some err) s of
        Panic \<Rightarrow> Panic
      | Done (err1, s1) \<Rightarrow>
          if err1 \<noteq> None \<and> err1 \<noteq> Some SkipDir then Done (err1, s1)
          else walk_names J walkFn p rest s1)"
| "walk_names J walkFn p ((name, Node (Inr fileInfo) re es) # rest) s =
     (case walk J walkFn (J p name) fileInfo re es s of
        Panic \<Rightarrow> Panic
      | Done (err1, s1) \<Rightarrow>
          if err1 \<noteq> None \<and> (\<not> IsDir fileInfo \<or> err1 \<noteq> Some SkipDir) then Done (err1, s1)
          else walk_names J walkFn p rest s1)"

fun Walk :: "(string \<Rightarrow> string \<Rightarrow> string) \<Rightarrow> 's WalkFunc \<Rightarrow> string \<Rightarrow> fsnode \<Rightarrow> 's \<Rightarrow>
    (error option \<times> 's) outcome" where
  "Walk J fn root (Node li re es) s =
     (case (case li of
              Inl err \<Rightarrow> fn root None (Some err) s
            | Inr info \<Rightarrow> walk J fn root info re es s) of
        Panic \<Rightarrow> Panic
      | Done (err, s1) \<Rightarrow>
          if err = Some SkipDir \<or> err = Some SkipAll then Done (None, s1) else Done (err, s1))"

subsection \<open>Events\<close>

text \<open>The field \<open>Info\<close> of an event is the \<^verbatim>\<open>os.FileInfo\<close> that the struct embeds.\<close>

datatype eventType = Added | Changed | Deleted

record Event =
  Type :: eventType
  Path :: string
  Info :: FileInfo

record EventsAt =
  At :: int
  Events :: "Event list"

subsection \<open>The watcher\<close>

text \<open>
  An observer is a channel; the model names it by a number and records every send
  as a pair of the channel and the value sent, in the order of the sends. A ticker
  is known by its period.
\<close>

type_synonym Observer = nat

type_synonym sends = "(Observer \<times> EventsAt) list"

datatype Ticker = Ticker "64 word"

type_synonym strFileInfo = "string \<times> FileInfo option"

type_synonym scanFn = "env \<Rightarrow> string \<Rightarrow> strFileInfo list"

text \<open>
  The struct of the first variant, and the second variant's, which adds the installed
  scanning function. The map \<^verbatim>\<open>files\<close> is an association list: the order of its
  entries is the order in which \<^verbatim>\<open>range\<close> visits them, which Go leaves open.
\<close>

record directoryWatcher =
  Interval :: "64 word"
  Recursive :: bool
  Pattern :: string
  path :: string
  files :: "(string \<times> FileInfo) list"
  ticker :: "Ticker option"
  observers :: "Observer list"
  Preload :: bool

record directoryWatcher2 = directoryWatcher +
  scan :: scanFn

definition matches :: "env \<Rightarrow> string \<Rightarrow> string \<Rightarrow> bool" where
  "matches os pattern name =
     (case Match os pattern name of Inl err \<Rightarrow> False | Inr matched \<Rightarrow> matched)"

definition hasChange :: "'a directoryWatcher_scheme \<Rightarrow> string \<Rightarrow> FileInfo \<Rightarrow> Event \<times> bool" where
  "hasChange dw p info =
     (case map_of (files dw) p of
        Some oldInfo \<Rightarrow>
          (\<lparr>Type = Changed, Path = p, Info = info\<rparr>, ModTime oldInfo < ModTime info)
      | None \<Rightarrow> (\<lparr>Type = Added, Path = p, Info = info\<rparr>, True))"

text \<open>
  The state of a scan: the watcher (whose \<^verbatim>\<open>files\<close> the scan updates), the events
  collected so far and the set of touched paths.
\<close>

type_synonym 'a scan_state = "'a directoryWatcher_scheme \<times> Event list \<times> string set"

text \<open>The steps of both scans after their filter: record a change, mark the path.\<close>

definition record_change :: "string \<Rightarrow> FileInfo \<Rightarrow> 'a scan_state \<Rightarrow> 'a scan_state" where
  "record_change p info st =
     (case st of (dw, changed, touched) \<Rightarrow>
        (case hasChange dw p info of
           (ev, yes) \<Rightarrow>
             if yes then (dw\<lparr>files := AList.update p info (files dw)\<rparr>, changed @ [ev],
                          insert p touched)
             else (dw, changed, insert p touched)))"

text \<open>
  The second loop of both scans: every entry of \<^verbatim>\<open>files\<close> that was not touched
  gives a Deleted event and is deleted. The list is the entries \<^verbatim>\<open>range\<close> visits.
\<close>

fun sweep :: "string set \<Rightarrow> (string \<times> FileInfo) list \<Rightarrow> 'a directoryWatcher_scheme \<times> Event list \<Rightarrow>
    'a directoryWatcher_scheme \<times> Event list" where
  "sweep touched [] st = st"
| "sweep touched ((p, info) # rest) (dw, changed) =
     (if p \<notin> touched
      then sweep touched rest
             (dw\<lparr>files := AList.delete p (files dw)\<rparr>,
              changed @ [\<lparr>Type = Deleted, Path = p, Info = info\<rparr>])
      else sweep touched rest (dw, changed))"

subsection \<open>The second variant: scanner functions and \<^verbatim>\<open>scan2\<close>\<close>

text \<open>
  \<^verbatim>\<open>recScanner\<close> sends every entry the walk passes to it on the channel and returns
  the walk's error; the list is what the channel carries until it is closed.
\<close>

definition recScanner_fn :: "(strFileInfo list) WalkFunc" where
  "recScanner_fn p info err c = Done (err, c @ [(p, info)])"

definition recScanner :: scanFn where
  "recScanner os p =
     (case Walk (Join os) recScanner_fn p (Tree os p) [] of
        Panic \<Rightarrow> []
      | Done (err, c) \<Rightarrow> c)"

fun globScanner_loop :: "env \<Rightarrow> string list \<Rightarrow> strFileInfo list \<Rightarrow> strFileInfo list" where
  "globScanner_loop os [] c = c"
| "globScanner_loop os (p # rest) c =
     (case Stat os p of
        Inr info \<Rightarrow> globScanner_loop os rest (c @ [(p, Some info)])
      | Inl err \<Rightarrow> globScanner_loop os rest c)"

definition globScanner :: scanFn where
  "globScanner os p =
     (let all = (case Glob os (Join os p ''*'') of Inl err \<Rightarrow> [] | Inr ms \<Rightarrow> ms)
      in globScanner_loop os all [])"

fun scan2_loop :: "env \<Rightarrow> strFileInfo list \<Rightarrow> 'a scan_state \<Rightarrow> 'a scan_state outcome" where
  "scan2_loop os [] st = Done st"
| "scan2_loop os ((p, None) # rest) st = Panic"
| "scan2_loop os ((p, Some info) # rest) (dw, changed, touched) =
     (if IsDir info \<or> \<not> matches os (Pattern dw) (Name info)
      then scan2_loop os rest (dw, changed, touched)
      else scan2_loop os rest (record_change p info (dw, changed, touched)))"

definition scan2 :: "env \<Rightarrow> 'a directoryWatcher2_scheme \<Rightarrow>
    (Event list \<times> 'a directoryWatcher2_scheme) outcome" where
  "scan2 os dw =
     (case scan2_loop os (scan dw os (path dw)) (dw, [], {}) of
        Panic \<Rightarrow> Panic
      | Done (dw1, changed, touched) \<Rightarrow>
          (case sweep touched (files dw1) (dw1, changed) of
             (dw2, changed2) \<Rightarrow> Done (changed2, dw2)))"

subsection \<open>The first variant: \<^verbatim>\<open>scan1\<close>\<close>

definition scan1_fn :: "env \<Rightarrow> ('a scan_state) WalkFunc" where
  "scan1_fn os p info err st =
     (case st of (dw, changed, touched) \<Rightarrow>
        (case info of
           None \<Rightarrow> Panic
         | Some i \<Rightarrow>
             if IsDir i \<or> \<not> matches os (Pattern dw) (Name i) then Done (None, st)
             else Done (err, record_change p i st)))"

fun scan1_glob_loop :: "env \<Rightarrow> string list \<Rightarrow> 'a scan_state \<Rightarrow> 'a scan_state" where
  "scan1_glob_loop os [] st = st"
| "scan1_glob_loop os (p # rest) st =
     (case Stat os p of
        Inl err \<Rightarrow> scan1_glob_loop os rest st
      | Inr info \<Rightarrow>
          if IsDir info then scan1_glob_loop os rest st
          else scan1_glob_loop os rest (record_change p info st))"

definition scan1 :: "env \<Rightarrow> 'a directoryWatcher_scheme \<Rightarrow>
    (Event list \<times> 'a directoryWatcher_scheme) outcome" where
  "scan1 os dw =
     (case (if Recursive dw
            then (case Walk (Join os) (scan1_fn os) (path dw) (Tree os (path dw)) (dw, [], {}) of
                    Panic \<Rightarrow> Panic
                  | Done (err, st) \<Rightarrow> Done st)
            else (let ms = (case Glob os (Join os (path dw) (Pattern dw)) of
                              Inl err \<Rightarrow> [] | Inr ms \<Rightarrow> ms)
                  in Done (scan1_glob_loop os ms (dw, [], {})))) of
        Panic \<Rightarrow> Panic
      | Done (dw1, changed, touched) \<Rightarrow>
          (case sweep touched (files dw1) (dw1, changed) of
             (dw2, changed2) \<Rightarrow> Done (changed2, dw2)))"

subsection \<open>Construction, observers, lifecycle\<close>

definition New :: "env \<Rightarrow> string \<Rightarrow> error + directoryWatcher2" where
  "New os p =
     (case Stat os p of
        Inl err \<Rightarrow> Inl err
      | Inr stat \<Rightarrow>
          if \<not> IsDir stat then Inl (Errorf (''Provided path is not a directory: '' @ p))
          else Inr \<lparr>Interval = 2000, Recursive = False, Pattern = ''*'', path = p,
                    files = [], ticker = None, observers = [], Preload = False,
                    scan = globScanner\<rparr>)"

definition AddObserver :: "'a directoryWatcher_scheme \<Rightarrow> Observer \<Rightarrow> 'a directoryWatcher_scheme" where
  "AddObserver dw obs = dw\<lparr>observers := observers dw @ [obs]\<rparr>"

text \<open>\<^verbatim>\<open>AddNewObserver\<close> makes a channel; the fresh channel is given by the caller here.\<close>

definition AddNewObserver :: "'a directoryWatcher_scheme \<Rightarrow> Observer \<Rightarrow>
    Observer \<times> 'a directoryWatcher_scheme" where
  "AddNewObserver dw o' = (o', dw\<lparr>observers := observers dw @ [o']\<rparr>)"

text \<open>\<^verbatim>\<open>notify\<close>: the loop sends the value on each channel of \<^verbatim>\<open>observers\<close> in turn.\<close>

fun notify_loop :: "Observer list \<Rightarrow> EventsAt \<Rightarrow> sends \<Rightarrow> sends" where
  "notify_loop [] evAt sent = sent"
| "notify_loop (ch # rest) evAt sent = notify_loop rest evAt (sent @ [(ch, evAt)])"

definition notify :: "'a directoryWatcher_scheme \<Rightarrow> EventsAt \<Rightarrow> sends \<Rightarrow> sends" where
  "notify dw evAt sent =
     (if length (Events evAt) = 0 then sent else notify_loop (observers dw) evAt sent)"

text \<open>
  \<^verbatim>\<open>time.NewTicker\<close> panics on a duration that is not positive; the duration is a
  signed 64-bit count of nanoseconds, and the conversion and the product wrap.
\<close>

definition Millisecond :: "64 word" where
  "Millisecond = 1000000"

definition NewTicker :: "64 word \<Rightarrow> Ticker outcome" where
  "NewTicker d = (if sint d \<le> 0 then Panic else Done (Ticker d))"

text \<open>
  \<^verbatim>\<open>Start\<close>, with the body of its goroutine up to the ticker loop run in sequence:
  the sends made so far are returned also when a later step panics. \<open>now\<close> is the
  value of \<^verbatim>\<open>time.Now()\<close>.
\<close>

definition Start :: "env \<Rightarrow> int \<Rightarrow> directoryWatcher2 \<Rightarrow> sends \<Rightarrow> sends \<times> directoryWatcher2 outcome" where
  "Start os now dw sent =
     (if ticker dw \<noteq> None then (sent, Done dw)
      else
        (let dw0 = (if Recursive dw then dw\<lparr>scan := recScanner\<rparr> else dw) in
         case scan2 os dw0 of
           Panic \<Rightarrow> (sent, Panic)
         | Done (fst1, dw1) \<Rightarrow>
             (let sent1 = (if \<not> Preload dw1 then notify dw1 \<lparr>At = now, Events = fst1\<rparr> sent
                           else sent) in
              case NewTicker (Interval dw1 * Millisecond) of
                Panic \<Rightarrow> (sent1, Panic)
              | Done t \<Rightarrow> (sent1, Done (dw1\<lparr>ticker := Some t\<rparr>)))))"

text \<open>One round of the ticker loop, at the time \<open>now\<close> read from the ticker's channel.\<close>

definition tick :: "env \<Rightarrow> int \<Rightarrow> directoryWatcher2 \<Rightarrow> sends \<Rightarrow> sends \<times> directoryWatcher2 outcome" where
  "tick os now dw sent =
     (case scan2 os dw of
        Panic \<Rightarrow> (sent, Panic)
      | Done (evs, dw1) \<Rightarrow> (notify dw1 \<lparr>At = now, Events = evs\<rparr> sent, Done dw1))"

text \<open>\<^verbatim>\<open>Stop\<close> calls a method of the ticker that reads it: on nil that is a panic.\<close>

definition Stop :: "'a directoryWatcher_scheme \<Rightarrow> 'a directoryWatcher_scheme outcome" where
  "Stop dw =
     (case ticker dw of
        None \<Rightarrow> Panic
      | Some t \<Rightarrow> Done (dw\<lparr>ticker := None\<rparr>))"

definition Running :: "'a directoryWatcher_scheme \<Rightarrow> bool" where
  "Running dw = (ticker dw \<noteq> None)"

section \<open>Notions used to state the properties\<close>

text \<open>
  The fresh traversal of a scan: the pairs of the scanner that pass the filter of the
  scan loop (metadata present, not a directory, base name matching the pattern), in
  the order of discovery.
\<close>

fun accepted :: "env \<Rightarrow> string \<Rightarrow> strFileInfo list \<Rightarrow> (string \<times> FileInfo) list" where
  "accepted os pat [] = []"
| "accepted os pat ((p, None) # rest) = accepted os pat rest"
| "accepted os pat ((p, Some info) # rest) =
     (if IsDir info \<or> \<not> matches os pat (Name info) then accepted os pat rest
      else (p, info) # accepted os pat rest)"

definition traversal :: "env \<Rightarrow> 'a directoryWatcher2_scheme \<Rightarrow> (string \<times> FileInfo) list" where
  "traversal os dw = accepted os (Pattern dw) (scan dw os (path dw))"

text \<open>The first loop of a scan on entries that have passed the filter.\<close>

definition apply_changes :: "(string \<times> FileInfo) list \<Rightarrow> 'a scan_state \<Rightarrow> 'a scan_state" where
  "apply_changes xs st = fold (\<lambda>x. record_change (fst x) (snd x)) xs st"

definition added_event :: "string \<times> FileInfo \<Rightarrow> Event" where
  "added_event kv = \<lparr>Type = Added, Path = fst kv, Info = snd kv\<rparr>"

definition deleted_event :: "string \<times> FileInfo \<Rightarrow> Event" where
  "deleted_event kv = \<lparr>Type = Deleted, Path = fst kv, Info = snd kv\<rparr>"

text \<open>One snapshot is \<open>newer\<close> than another if it keeps every path, with a
  modification time that is not earlier.\<close>

definition newer :: "(string \<times> FileInfo) list \<Rightarrow> (string \<times> FileInfo) list \<Rightarrow> bool" where
  "newer fs fs' \<longleftrightarrow>
     (\<forall>p old. map_of fs p = Some old \<longrightarrow>
        (\<exists>old'. map_of fs' p = Some old' \<and> ModTime old \<le> ModTime old'))"

text \<open>
  A directory tree that a walk reads without meeting an error: \<^verbatim>\<open>Lstat\<close> succeeds
  on every entry and every directory can be read. On such a tree the walk visits the
  entries of \<open>visits\<close>, in that order.
\<close>

fun walkable :: "FileInfo \<Rightarrow> error option \<Rightarrow> (string \<times> fsnode) list \<Rightarrow> bool"
and walkable_names :: "(string \<times> fsnode) list \<Rightarrow> bool" where
  "walkable info err names = (IsDir info \<longrightarrow> err = None \<and> walkable_names names)"
| "walkable_names [] = True"
| "walkable_names ((name, Node (Inl err) re es) # rest) = False"
| "walkable_names ((name, Node (Inr fileInfo) re es) # rest) =
     (walkable fileInfo re es \<and> walkable_names rest)"

fun walkable_tree :: "fsnode \<Rightarrow> bool" where
  "walkable_tree (Node (Inl err) re es) = False"
| "walkable_tree (Node (Inr info) re es) = walkable info re es"

fun visits :: "(string \<Rightarrow> string \<Rightarrow> string) \<Rightarrow> string \<Rightarrow> FileInfo \<Rightarrow> (string \<times> fsnode) list \<Rightarrow>
    strFileInfo list"
and visits_names :: "(string \<Rightarrow> string \<Rightarrow> string) \<Rightarrow> string \<Rightarrow> (string \<times> fsnode) list \<Rightarrow>
    strFileInfo list" where
  "visits J p info names =
     (p, Some info) # (if IsDir info then visits_names J p names else [])"
| "visits_names J p [] = []"
| "visits_names J p ((name, Node (Inl err) re es) # rest) =
     (J p name, None) # visits_names J p rest"
| "visits_names J p ((name, Node (Inr fileInfo) re es) # rest) =
     visits J (J p name) fileInfo es @ visits_names J p rest"

text \<open>
  What the two variants ask of \<^verbatim>\<open>filepath.Glob\<close> in the non-recursive mode. The
  first globs the watched path joined with the pattern; the second globs the watched
  path joined with \<^verbatim>\<open>*\<close> and matches the pattern against the base name that
  \<^verbatim>\<open>Stat\<close> reports. \<open>glob_agrees\<close> says that, among the paths \<^verbatim>\<open>Stat\<close> can
  read, both select the same paths in the same order.
\<close>

definition globbed :: "env \<Rightarrow> string \<Rightarrow> string list" where
  "globbed os pat = (case Glob os pat of Inl err \<Rightarrow> [] | Inr ms \<Rightarrow> ms)"

definition stat_ok :: "env \<Rightarrow> string \<Rightarrow> bool" where
  "stat_ok os q = (case Stat os q of Inl err \<Rightarrow> False | Inr info \<Rightarrow> True)"

definition stat_matches :: "env \<Rightarrow> string \<Rightarrow> string \<Rightarrow> bool" where
  "stat_matches os pat q =
     (case Stat os q of Inl err \<Rightarrow> False | Inr info \<Rightarrow> matches os pat (Name info))"

definition glob_agrees :: "env \<Rightarrow> 'a directoryWatcher_scheme \<Rightarrow> bool" where
  "glob_agrees os dw \<longleftrightarrow>
     filter (stat_ok os) (globbed os (Join os (path dw) (Pattern dw))) =
     filter (stat_matches os (Pattern dw)) (globbed os (Join os (path dw) ''*''))"

text \<open>The paths of a list that \<^verbatim>\<open>Stat\<close> reads as something other than a directory.\<close>

fun nondirs :: "env \<Rightarrow> string list \<Rightarrow> (string \<times> FileInfo) list" where
  "nondirs os [] = []"
| "nondirs os (q # qs) =
     (case Stat os q of
        Inl err \<Rightarrow> nondirs os qs
      | Inr info \<Rightarrow> if IsDir info then nondirs os qs else (q, info) # nondirs os qs)"

section \<open>A sample environment\<close>

text \<open>
  The properties below hold for every environment. The examples are evaluated in a
  small one: a matcher for patterns made of \<^verbatim>\<open>*\<close>, \<^verbatim>\<open>?\<close> and literal characters
  (\<^verbatim>\<open>*\<close> and \<^verbatim>\<open>?\<close> do not match a slash), paths joined by a slash, and
  \<^verbatim>\<open>Glob\<close> and \<^verbatim>\<open>Stat\<close> that read the paths of one directory tree.
\<close>

fun glob_match :: "string \<Rightarrow> string \<Rightarrow> bool" where
  "glob_match [] n = (n = [])"
| "glob_match (c # cs) [] = (c = CHR ''*'' \<and> glob_match cs [])"
| "glob_match (c # cs) (x # xs) =
     (if c = CHR ''*'' then x \<noteq> CHR ''/'' \<and> glob_match (c # cs) xs \<or> glob_match cs (x # xs)
      else (c = CHR ''?'' \<and> x \<noteq> CHR ''/'' \<or> c = x) \<and> glob_match cs xs)"

fun paths :: "string \<Rightarrow> fsnode \<Rightarrow> (string \<times> (error + FileInfo)) list"
and paths_names :: "string \<Rightarrow> (string \<times> fsnode) list \<Rightarrow> (string \<times> (error + FileInfo)) list" where
  "paths p (Node li re es) =
     (p, li) # (case li of
                  Inl err \<Rightarrow> []
                | Inr info \<Rightarrow> if IsDir info \<and> re = None then paths_names p es else [])"
| "paths_names p [] = []"
| "paths_names p ((name, t) # rest) = paths (p @ ''/'' @ name) t @ paths_names p rest"

definition sample_os :: "string \<Rightarrow> fsnode \<Rightarrow> env" where
  "sample_os root t =
     \<lparr>Match = (\<lambda>pat n. Inr (glob_match pat n)),
      Join = (\<lambda>a b. a @ ''/'' @ b),
      Glob = (\<lambda>pat. Inr (filter (glob_match pat) (map fst (paths root t)))),
      Stat = (\<lambda>q. case map_of (paths root t) q of
                     None \<Rightarrow> Inl (SysError ''ENOENT'')
                   | Some r \<Rightarrow> r),
      Tree = (\<lambda>q. if q = root then t else Node (Inl (SysError ''ENOENT'')) None [])\<rparr>"

definition finfo :: "string \<Rightarrow> int \<Rightarrow> FileInfo" where
  "finfo n t = \<lparr>Name = n, Size = 0, ModTime = t, IsDir = False\<rparr>"

definition dinfo :: "string \<Rightarrow> FileInfo" where
  "dinfo n = \<lparr>Name = n, Size = 0, ModTime = 0, IsDir = True\<rparr>"

definition mk_file :: "string \<Rightarrow> int \<Rightarrow> string \<times> fsnode" where
  "mk_file n t = (n, Node (Inr (finfo n t)) None [])"

definition mk_dir :: "string \<Rightarrow> (string \<times> fsnode) list \<Rightarrow> string \<times> fsnode" where
  "mk_dir n es = (n, Node (Inr (dinfo n)) None es)"

definition watcher :: "bool \<Rightarrow> string \<Rightarrow> (string \<times> FileInfo) list \<Rightarrow> directoryWatcher2" where
  "watcher r pat fs =
     \<lparr>Interval = 2000, Recursive = r, Pattern = pat, path = ''w'', files = fs, ticker = None,
      observers = [], Preload = False, scan = (if r then recScanner else globScanner)\<rparr>"

text \<open>A directory \<^verbatim>\<open>w\<close> with two files and a subdirectory that holds one file.\<close>

definition os1 :: env where
  "os1 = sample_os ''w''
     (snd (mk_dir ''w'' [mk_file ''a.txt'' 5, mk_file ''b.go'' 7, mk_dir ''sub'' [mk_file ''c.txt'' 2]]))"

text \<open>A directory whose first entry cannot be read by \<^verbatim>\<open>Lstat\<close>, before a file.\<close>

definition os_nostat :: env where
  "os_nostat = sample_os ''w''
     (snd (mk_dir ''w'' [(''a'', Node (Inl (SysError ''EACCES'')) None []), mk_file ''b.txt'' 4]))"

text \<open>A directory whose first entry is a directory that cannot be read, before a file.\<close>

definition os_unreadable :: env where
  "os_unreadable = sample_os ''w''
     (snd (mk_dir ''w'' [(''a'', Node (Inr (dinfo ''a'')) (Some (SysError ''EACCES'')) []),
                         mk_file ''b.txt'' 4]))"

text \<open>Snapshots from an earlier scan: a file that is gone and an older \<^verbatim>\<open>a.txt\<close>;
  an \<^verbatim>\<open>a.txt\<close> with a later modification time.\<close>

definition stale :: "(string \<times> FileInfo) list" where
  "stale = [(''w/old.txt'', finfo ''old.txt'' 1), (''w/a.txt'', finfo ''a.txt'' 3)]"

definition ahead :: "(string \<times> FileInfo) list" where
  "ahead = [(''w/a.txt'', finfo ''a.txt'' 9)]"

text \<open>A recursive watcher with two observers.\<close>

definition observed :: "bool \<Rightarrow> (string \<times> FileInfo) list \<Rightarrow> directoryWatcher2" where
  "observed pre fs = (watcher True ''*.txt'' fs)\<lparr>observers := [7, 3], Preload := pre\<rparr>"

section \<open>The two loops of a scan\<close>

lemma apply_changes_Nil [simp]: "apply_changes [] st = st"
  by (simp add: apply_changes_def)

lemma apply_changes_Cons [simp]:
  "apply_changes ((p, i) # xs) st = apply_changes xs (record_change p i st)"
  by (simp add: apply_changes_def)

lemma apply_changes_append:
  "apply_changes (xs @ ys) st = apply_changes ys (apply_changes xs st)"
  by (simp add: apply_changes_def)

lemma record_change_Pattern: "Pattern (fst (record_change p i st)) = Pattern (fst st)"
  by (cases st) (simp add: record_change_def hasChange_def split: option.splits)

lemma scan2_loop_Panic: "(p, None) \<in> set pairs \<Longrightarrow> scan2_loop os pairs st = Panic"
proof (induction os pairs st rule: scan2_loop.induct)
  case (3 os q info rest dw changed touched)
  then show ?case by (cases "record_change q info (dw, changed, touched)") auto
qed auto

lemma scan2_loop_Done:
  "\<forall>p. (p, None) \<notin> set pairs \<Longrightarrow>
   scan2_loop os pairs st = Done (apply_changes (accepted os (Pattern (fst st)) pairs) st)"
proof (induction os pairs st rule: scan2_loop.induct)
  case (3 os q info rest dw changed touched)
  obtain dw1 ch1 t1 where r: "record_change q info (dw, changed, touched) = (dw1, ch1, t1)"
    by (cases "record_change q info (dw, changed, touched)") auto
  have pat: "Pattern dw1 = Pattern dw"
    using record_change_Pattern [of q info "(dw, changed, touched)"] r by simp
  from 3 r pat show ?case by auto
qed auto

lemma sweep_eq:
  "sweep touched es (dw, ch) =
     (dw\<lparr>files := filter (\<lambda>kv. fst kv \<in> touched \<or> fst kv \<notin> fst ` set es) (files dw)\<rparr>,
      ch @ map (\<lambda>kv. \<lparr>Type = Deleted, Path = fst kv, Info = snd kv\<rparr>)
             (filter (\<lambda>kv. fst kv \<notin> touched) es))"
proof (induction es arbitrary: dw ch)
  case Nil
  then show ?case by simp
next
  case (Cons a es)
  obtain p info where a: "a = (p, info)" by (cases a)
  show ?case
    unfolding a
    by (auto simp: Cons AList.delete_eq intro!: arg_cong2 [where f = "\<lambda>f d. files_update f d"] filter_cong ext)
qed

lemma record_change_cases:
  assumes "record_change p i (dw, ch, t) = (dw', ch', t')"
  shows "t' = insert p t \<and>
    ((map_of (files dw) p = None \<and> dw' = dw\<lparr>files := AList.update p i (files dw)\<rparr> \<and>
        ch' = ch @ [\<lparr>Type = Added, Path = p, Info = i\<rparr>]) \<or>
     (\<exists>old. map_of (files dw) p = Some old \<and> ModTime old < ModTime i \<and>
        dw' = dw\<lparr>files := AList.update p i (files dw)\<rparr> \<and>
        ch' = ch @ [\<lparr>Type = Changed, Path = p, Info = i\<rparr>]) \<or>
     (\<exists>old. map_of (files dw) p = Some old \<and> \<not> ModTime old < ModTime i \<and>
        dw' = dw \<and> ch' = ch))"
  using assms
  by (auto simp: record_change_def hasChange_def split: option.splits if_splits)

lemma newer_refl: "newer fs fs"
  by (simp add: newer_def)

lemma newer_trans: "newer a b \<Longrightarrow> newer b c \<Longrightarrow> newer a c"
  unfolding newer_def by (meson order_trans)

lemma record_change_newer:
  assumes "record_change p i (dw, ch, t) = (dw', ch', t')"
  shows "newer (files dw) (files dw')"
    and "\<exists>old'. map_of (files dw') p = Some old' \<and> ModTime i \<le> ModTime old'"
  using record_change_cases [OF assms]
  by (auto simp: newer_def AList.update_conv')

lemma apply_changes_newer:
  "apply_changes xs (dw, ch, t) = (dw', ch', t') \<Longrightarrow>
   newer (files dw) (files dw') \<and>
   (\<forall>x \<in> set xs. \<exists>old'. map_of (files dw') (fst x) = Some old' \<and> ModTime (snd x) \<le> ModTime old')"
proof (induction xs arbitrary: dw ch t)
  case Nil
  then show ?case by (simp add: newer_refl)
next
  case (Cons x xs)
  obtain p i where x: "x = (p, i)" by (cases x)
  obtain dw1 ch1 t1 where r: "record_change p i (dw, ch, t) = (dw1, ch1, t1)"
    by (cases "record_change p i (dw, ch, t)") auto
  from Cons.prems have a: "apply_changes xs (dw1, ch1, t1) = (dw', ch', t')" by (simp add: x r)
  note ih = Cons.IH [OF a]
  have n: "newer (files dw) (files dw')"
    using newer_trans [OF record_change_newer(1) [OF r]] ih by blast
  from record_change_newer(2) [OF r] obtain o1 where
    o1: "map_of (files dw1) p = Some o1" "ModTime i \<le> ModTime o1" by blast
  from ih o1 obtain o2 where
    "map_of (files dw') p = Some o2" "ModTime o1 \<le> ModTime o2"
    unfolding newer_def by blast
  with o1 have "\<exists>old'. map_of (files dw') p = Some old' \<and> ModTime i \<le> ModTime old'"
    by (meson order_trans)
  with ih n show ?case by (simp add: x)
qed

lemma apply_changes_stable:
  "\<forall>x \<in> set xs. \<exists>old. map_of (files dw) (fst x) = Some old \<and> ModTime (snd x) \<le> ModTime old \<Longrightarrow>
   apply_changes xs (dw, ch, t) = (dw, ch, t \<union> fst ` set xs)"
proof (induction xs arbitrary: t)
  case Nil
  then show ?case by simp
next
  case (Cons x xs)
  obtain p i where x: "x = (p, i)" by (cases x)
  from Cons.prems obtain old where "map_of (files dw) p = Some old" "ModTime i \<le> ModTime old"
    by (auto simp: x)
  then have "record_change p i (dw, ch, t) = (dw, ch, insert p t)"
    by (simp add: record_change_def hasChange_def)
  with Cons show ?case by (simp add: x)
qed

lemma record_change_frame:
  assumes "record_change p i (dw, ch, t) = (dw1, ch1, t1)"
  shows "\<exists>fs. dw1 = dw\<lparr>files := fs\<rparr>" and "t1 = insert p t"
    and "fst ` set (files dw1) = insert p (fst ` set (files dw))"
proof -
  have k: "map_of (files dw) p = Some old \<Longrightarrow> insert p (fst ` set (files dw)) = fst ` set (files dw)" for old
    by (meson domI domIff map_of_eq_None_iff insert_absorb)
  have u: "fst ` set (AList.update p i (files dw)) = insert p (fst ` set (files dw))"
    by (simp add: AList.dom_update)
  have e: "dw = dw\<lparr>files := files dw\<rparr>" by simp
  from record_change_cases [OF assms] show "t1 = insert p t" by blast
  from record_change_cases [OF assms] e show "\<exists>fs. dw1 = dw\<lparr>files := fs\<rparr>" by metis
  from record_change_cases [OF assms] show "fst ` set (files dw1) = insert p (fst ` set (files dw))"
    using k u by (elim conjE disjE exE) simp_all
qed

lemma apply_changes_frame:
  "apply_changes xs (dw, ch, t) = (dw', ch', t') \<Longrightarrow>
   (\<exists>fs. dw' = dw\<lparr>files := fs\<rparr>) \<and> t' = t \<union> fst ` set xs \<and>
   fst ` set (files dw') = fst ` set (files dw) \<union> fst ` set xs"
proof (induction xs arbitrary: dw ch t)
  case Nil
  have "dw = dw\<lparr>files := files dw\<rparr>" by simp
  with Nil show ?case by (metis apply_changes_Nil prod.inject Un_empty_right image_empty list.set(1))
next
  case (Cons x xs)
  obtain p i where x: "x = (p, i)" by (cases x)
  obtain dw1 ch1 t1 where r: "record_change p i (dw, ch, t) = (dw1, ch1, t1)"
    by (cases "record_change p i (dw, ch, t)") auto
  from Cons.prems have a: "apply_changes xs (dw1, ch1, t1) = (dw', ch', t')" by (simp add: x r)
  from record_change_frame [OF r] obtain fs1 where
    s: "dw1 = dw\<lparr>files := fs1\<rparr>" "t1 = insert p t"
       "fst ` set (files dw1) = insert p (fst ` set (files dw))" by blast
  from Cons.IH [OF a] obtain fs where i: "dw' = dw1\<lparr>files := fs\<rparr>" "t' = t1 \<union> fst ` set xs"
    "fst ` set (files dw') = fst ` set (files dw1) \<union> fst ` set xs" by blast
  have "dw' = dw\<lparr>files := fs\<rparr>" unfolding i(1) s(1) by simp
  moreover have "t' = t \<union> fst ` set (x # xs)" using i(2) s(2) by (simp add: x)
  moreover have "fst ` set (files dw') = fst ` set (files dw) \<union> fst ` set (x # xs)"
    unfolding i(3) s(3) by (simp add: x)
  ultimately show ?case by blast
qed

lemma apply_changes_other:
  "p \<notin> fst ` set xs \<Longrightarrow> apply_changes xs (dw, ch, t) = (dw', ch', t') \<Longrightarrow>
   map_of (files dw') p = map_of (files dw) p \<and>
   filter (\<lambda>e. Path e = p) ch' = filter (\<lambda>e. Path e = p) ch"
proof (induction xs arbitrary: dw ch t)
  case Nil
  then show ?case by simp
next
  case (Cons x xs)
  obtain q i where x: "x = (q, i)" by (cases x)
  obtain dw1 ch1 t1 where r: "record_change q i (dw, ch, t) = (dw1, ch1, t1)"
    by (cases "record_change q i (dw, ch, t)") auto
  from Cons.prems have a: "apply_changes xs (dw1, ch1, t1) = (dw', ch', t')" by (simp add: x r)
  from Cons.prems have ne: "q \<noteq> p" "p \<notin> fst ` set xs" by (auto simp: x)
  from record_change_cases [OF r] ne
  have "map_of (files dw1) p = map_of (files dw) p \<and>
      filter (\<lambda>e. Path e = p) ch1 = filter (\<lambda>e. Path e = p) ch"
    by (auto simp: AList.update_conv')
  with Cons.IH [OF ne(2) a] show ?case by simp
qed

lemma apply_changes_events:
  "apply_changes xs (dw, ch, t) = (dw', ch', t') \<Longrightarrow>
   \<exists>new. ch' = ch @ new \<and> (\<forall>e \<in> set new. Type e \<noteq> Deleted)"
proof (induction xs arbitrary: dw ch t)
  case Nil
  then show ?case by simp
next
  case (Cons x xs)
  obtain q i where x: "x = (q, i)" by (cases x)
  obtain dw1 ch1 t1 where r: "record_change q i (dw, ch, t) = (dw1, ch1, t1)"
    by (cases "record_change q i (dw, ch, t)") auto
  from Cons.prems have a: "apply_changes xs (dw1, ch1, t1) = (dw', ch', t')" by (simp add: x r)
  from record_change_cases [OF r]
  obtain n1 where n1: "ch1 = ch @ n1" "\<forall>e \<in> set n1. Type e \<noteq> Deleted" by auto
  from Cons.IH [OF a] obtain n2 where n2: "ch' = ch1 @ n2" "\<forall>e \<in> set n2. Type e \<noteq> Deleted"
    by auto
  from n1 n2 have "ch' = ch @ (n1 @ n2) \<and> (\<forall>e \<in> set (n1 @ n2). Type e \<noteq> Deleted)" by auto
  then show ?case by blast
qed

lemma apply_changes_distinct:
  "apply_changes xs (dw, ch, t) = (dw', ch', t') \<Longrightarrow> distinct (map fst (files dw)) \<Longrightarrow>
   distinct (map fst (files dw'))"
proof (induction xs arbitrary: dw ch t)
  case Nil
  then show ?case by simp
next
  case (Cons x xs)
  obtain q i where x: "x = (q, i)" by (cases x)
  obtain dw1 ch1 t1 where r: "record_change q i (dw, ch, t) = (dw1, ch1, t1)"
    by (cases "record_change q i (dw, ch, t)") auto
  from Cons.prems have a: "apply_changes xs (dw1, ch1, t1) = (dw', ch', t')" by (simp add: x r)
  from record_change_cases [OF r] Cons.prems(2) have "distinct (map fst (files dw1))"
    by (auto simp: AList.distinct_update)
  with Cons.IH [OF a] show ?case by simp
qed

lemma scan2_eq:
  "scan2 os dw =
     (if \<exists>p. (p, None) \<in> set (scan dw os (path dw)) then Panic
      else (case apply_changes (traversal os dw) (dw, [], {}) of
              (dw1, ch, t) \<Rightarrow>
                Done (ch @ map deleted_event (filter (\<lambda>kv. fst kv \<notin> t) (files dw1)),
                      dw1\<lparr>files := filter (\<lambda>kv. fst kv \<in> t) (files dw1)\<rparr>)))"
proof (cases "\<exists>p. (p, None) \<in> set (scan dw os (path dw))")
  case True
  then obtain p where m: "(p, None) \<in> set (scan dw os (path dw))" by blast
  have "scan2_loop os (scan dw os (path dw)) (dw, [], {}) = Panic"
    by (rule scan2_loop_Panic [OF m])
  with True show ?thesis by (simp add: scan2_def)
next
  case False
  then have n: "\<forall>p. (p, None) \<notin> set (scan dw os (path dw))" by blast
  obtain dw1 ch t where a: "apply_changes (traversal os dw) (dw, [], {}) = (dw1, ch, t)"
    by (cases "apply_changes (traversal os dw) (dw, [], {})") auto
  have f: "filter (\<lambda>kv. fst kv \<in> t \<or> fst kv \<notin> fst ` set (files dw1)) (files dw1) =
      filter (\<lambda>kv. fst kv \<in> t) (files dw1)"
    by (rule filter_cong) auto
  have d: "map (\<lambda>kv. \<lparr>Type = Deleted, Path = fst kv, Info = snd kv\<rparr>) zs = map deleted_event zs" for zs
    by (simp add: deleted_event_def)
  show ?thesis
    using False a scan2_loop_Done [OF n, of os "(dw, [], {})"]
    by (simp add: scan2_def traversal_def sweep_eq f d)
qed

lemma scan2_DoneE:
  assumes "scan2 os dw = Done (evs, dw')"
  obtains dw1 ch where
    "apply_changes (traversal os dw) (dw, [], {}) = (dw1, ch, fst ` set (traversal os dw))"
    "evs = ch @ map deleted_event (filter (\<lambda>kv. fst kv \<notin> fst ` set (traversal os dw)) (files dw1))"
    "dw' = dw1\<lparr>files := filter (\<lambda>kv. fst kv \<in> fst ` set (traversal os dw)) (files dw1)\<rparr>"
    "\<forall>p. (p, None) \<notin> set (scan dw os (path dw))"
proof -
  obtain dw1 ch t where a: "apply_changes (traversal os dw) (dw, [], {}) = (dw1, ch, t)"
    by (cases "apply_changes (traversal os dw) (dw, [], {})") auto
  from apply_changes_frame [OF a] have t: "t = fst ` set (traversal os dw)" by simp
  have n: "\<not> (\<exists>p. (p, None) \<in> set (scan dw os (path dw)))"
  proof
    assume "\<exists>p. (p, None) \<in> set (scan dw os (path dw))"
    then have "scan2 os dw = Panic" by (simp add: scan2_eq)
    with assms show False by simp
  qed
  have "scan2 os dw = Done (ch @ map deleted_event (filter (\<lambda>kv. fst kv \<notin> t) (files dw1)),
      dw1\<lparr>files := filter (\<lambda>kv. fst kv \<in> t) (files dw1)\<rparr>)"
    using n a by (simp add: scan2_eq)
  with assms have "evs = ch @ map deleted_event (filter (\<lambda>kv. fst kv \<notin> t) (files dw1))"
    "dw' = dw1\<lparr>files := filter (\<lambda>kv. fst kv \<in> t) (files dw1)\<rparr>"
    by simp_all
  with a t n that show ?thesis by blast
qed

lemma map_of_filter_key:
  "map_of (filter (\<lambda>kv. P (fst kv)) xs) k = (if P k then map_of xs k else None)"
  by (induction xs) auto

lemma filter_key_distinct:
  "distinct (map fst xs) \<Longrightarrow> map_of xs k = Some v \<Longrightarrow> filter (\<lambda>kv. fst kv = k) xs = [(k, v)]"
proof (induction xs)
  case Nil
  then show ?case by simp
next
  case (Cons a xs)
  show ?case
  proof (cases "fst a = k")
    case True
    with Cons.prems have "a = (k, v)" by (cases a) auto
    moreover from True Cons.prems have "k \<notin> fst ` set xs" by auto
    then have "filter (\<lambda>kv. fst kv = k) xs = []" by (auto simp: filter_empty_conv)
    ultimately show ?thesis by simp
  next
    case False
    with Cons show ?thesis by (cases a) auto
  qed
qed

lemma notify_loop_eq: "notify_loop obs evAt sent = sent @ map (\<lambda>ch. (ch, evAt)) obs"
  by (induction obs arbitrary: sent) auto

lemma apply_changes_added_count:
  "apply_changes xs (dw, ch, t) = (dw', ch', t') \<Longrightarrow>
   length (filter (\<lambda>e. Type e = Added \<and> Path e = p) ch') =
     length (filter (\<lambda>e. Type e = Added \<and> Path e = p) ch) +
     (if p \<in> fst ` set xs \<and> map_of (files dw) p = None then 1 else 0)"
proof (induction xs arbitrary: dw ch t)
  case Nil
  then show ?case by simp
next
  case (Cons x xs)
  obtain q i where x: "x = (q, i)" by (cases x)
  obtain dw1 ch1 t1 where r: "record_change q i (dw, ch, t) = (dw1, ch1, t1)"
    by (cases "record_change q i (dw, ch, t)") auto
  from Cons.prems have a: "apply_changes xs (dw1, ch1, t1) = (dw', ch', t')" by (simp add: x r)
  note ih = Cons.IH [OF a]
  show ?case
  proof (cases "q = p")
    case True
    from record_change_newer(2) [OF r] True have s: "map_of (files dw1) p \<noteq> None" by auto
    from record_change_cases [OF r] True
    have "length (filter (\<lambda>e. Type e = Added \<and> Path e = p) ch1) =
        length (filter (\<lambda>e. Type e = Added \<and> Path e = p) ch) +
        (if map_of (files dw) p = None then 1 else 0)"
      by (elim conjE disjE exE) simp_all
    with ih s True show ?thesis by (simp add: x)
  next
    case False
    from record_change_cases [OF r] False
    have "map_of (files dw1) p = map_of (files dw) p \<and>
        filter (\<lambda>e. Type e = Added \<and> Path e = p) ch1 = filter (\<lambda>e. Type e = Added \<and> Path e = p) ch"
      by (elim conjE disjE exE) (simp_all add: AList.update_conv')
    with ih False show ?thesis by (simp add: x)
  qed
qed

lemma apply_changes_once:
  assumes "apply_changes xs (dw, ch, t) = (dw', ch', t')"
    and "filter (\<lambda>x. fst x = p) xs = [(p, i)]"
  shows "filter (\<lambda>e. Path e = p) ch' = filter (\<lambda>e. Path e = p) ch @
     (case map_of (files dw) p of
        None \<Rightarrow> [\<lparr>Type = Added, Path = p, Info = i\<rparr>]
      | Some old \<Rightarrow> if ModTime old < ModTime i then [\<lparr>Type = Changed, Path = p, Info = i\<rparr>] else [])"
proof -
  from assms(2) obtain us vs where xs: "xs = us @ (p, i) # vs"
    and us: "\<forall>u \<in> set us. fst u \<noteq> p" and vs: "filter (\<lambda>x. fst x = p) vs = []"
    by (auto simp: filter_eq_Cons_iff)
  from us have pu: "p \<notin> fst ` set us" by auto
  from vs have pv: "p \<notin> fst ` set vs" by (auto simp: filter_empty_conv)
  obtain dw1 ch1 t1 where a1: "apply_changes us (dw, ch, t) = (dw1, ch1, t1)"
    by (cases "apply_changes us (dw, ch, t)") auto
  obtain dw2 ch2 t2 where r: "record_change p i (dw1, ch1, t1) = (dw2, ch2, t2)"
    by (cases "record_change p i (dw1, ch1, t1)") auto
  from assms(1) have a2: "apply_changes vs (dw2, ch2, t2) = (dw', ch', t')"
    by (simp add: xs apply_changes_append a1 r)
  from apply_changes_other [OF pu a1]
  have e1: "map_of (files dw1) p = map_of (files dw) p"
    "filter (\<lambda>e. Path e = p) ch1 = filter (\<lambda>e. Path e = p) ch" by simp_all
  from apply_changes_other [OF pv a2]
  have e2: "filter (\<lambda>e. Path e = p) ch' = filter (\<lambda>e. Path e = p) ch2" by simp
  from record_change_cases [OF r]
  have "filter (\<lambda>e. Path e = p) ch2 = filter (\<lambda>e. Path e = p) ch1 @
     (case map_of (files dw1) p of
        None \<Rightarrow> [\<lparr>Type = Added, Path = p, Info = i\<rparr>]
      | Some old \<Rightarrow> if ModTime old < ModTime i then [\<lparr>Type = Changed, Path = p, Info = i\<rparr>] else [])"
    by (elim conjE disjE exE) simp_all
  then show ?thesis unfolding e2 e1 .
qed

lemma deleted_part_touched:
  "p \<in> T \<Longrightarrow> filter (\<lambda>e. Path e = p) (map deleted_event (filter (\<lambda>kv. fst kv \<notin> T) fs)) = []"
  by (auto simp: filter_empty_conv deleted_event_def)

lemma deleted_part_added:
  "filter (\<lambda>e. Type e = Added \<and> Path e = p) (map deleted_event fs) = []"
  by (auto simp: filter_empty_conv deleted_event_def)

lemma deleted_part_untouched:
  assumes "distinct (map fst fs)" "map_of fs p = Some info" "p \<notin> T"
  shows "filter (\<lambda>e. Path e = p) (map deleted_event (filter (\<lambda>kv. fst kv \<notin> T) fs)) =
     [\<lparr>Type = Deleted, Path = p, Info = info\<rparr>]"
proof -
  have 1: "filter (\<lambda>e. Path e = p) (map deleted_event zs) =
      map deleted_event (filter (\<lambda>kv. fst kv = p) zs)" for zs
    by (induction zs) (auto simp: deleted_event_def)
  have 2: "filter (\<lambda>kv. fst kv = p) (filter (\<lambda>kv. fst kv \<notin> T) fs) = filter (\<lambda>kv. fst kv = p) fs"
    using assms(3) by (auto intro: filter_cong)
  have 3: "filter (\<lambda>kv. fst kv = p) fs = [(p, info)]"
    by (rule filter_key_distinct [OF assms(1,2)])
  show ?thesis unfolding 1 2 3 by (simp add: deleted_event_def)
qed

lemma accepted_set:
  "fst ` set (accepted os pat pairs) =
     {p. \<exists>info. (p, Some info) \<in> set pairs \<and> \<not> IsDir info \<and> matches os pat (Name info)}"
  by (induction os pat pairs rule: accepted.induct) auto

section \<open>The walk on a tree without errors\<close>

lemma scan2_loop_append:
  "scan2_loop os (xs @ ys) st =
     (case scan2_loop os xs st of Panic \<Rightarrow> Panic | Done st' \<Rightarrow> scan2_loop os ys st')"
proof (induction os xs st rule: scan2_loop.induct)
  case (3 os q info rest dw changed touched)
  then show ?case
    by (cases "record_change q info (dw, changed, touched)") auto
qed auto

lemma scan1_fn_step:
  "scan1_fn os p (Some info) None st =
     (case scan2_loop os [(p, Some info)] st of Panic \<Rightarrow> Panic | Done st' \<Rightarrow> Done (None, st'))"
proof -
  obtain dw ch t where st: "st = (dw, ch, t)" by (cases st) auto
  show ?thesis
    unfolding st
    by (cases "record_change p info (dw, ch, t)") (simp add: scan1_fn_def)
qed

lemma walk_recScanner_fn:
  "walkable info err names \<Longrightarrow>
     walk J recScanner_fn p info err names c = Done (None, c @ visits J p info names)"
  "walkable_names names \<Longrightarrow>
     walk_names J recScanner_fn p names c = Done (None, c @ visits_names J p names)"
proof (induction info err names and names arbitrary: p c and p c
    rule: walkable_walkable_names.induct)
  case (1 info err names)
  then show ?case by (simp add: recScanner_fn_def)
next
  case 2
  then show ?case by simp
next
  case (3 name err re es rest)
  then show ?case by simp
next
  case (4 name fileInfo re es rest)
  then show ?case by simp
qed

lemma walk_scan1_fn:
  "walkable info err names \<Longrightarrow>
     walk J (scan1_fn os) p info err names st =
       (case scan2_loop os (visits J p info names) st of
          Panic \<Rightarrow> Panic | Done st' \<Rightarrow> Done (None, st'))"
  "walkable_names names \<Longrightarrow>
     walk_names J (scan1_fn os) p names st =
       (case scan2_loop os (visits_names J p names) st of
          Panic \<Rightarrow> Panic | Done st' \<Rightarrow> Done (None, st'))"
proof (induction info err names and names arbitrary: p st and p st
    rule: walkable_walkable_names.induct)
  case (1 info err names)
  show ?case
  proof (cases "IsDir info")
    case False
    then show ?thesis by (simp add: scan1_fn_step)
  next
    case True
    with 1 have e: "err = None" and w: "walkable_names names" by simp_all
    note ih = "1.IH" [OF True w]
    obtain dw ch t where st: "st = (dw, ch, t)" by (cases st) auto
    show ?thesis
      unfolding st using True e ih [of p "(dw, ch, t)"]
      by (simp add: scan1_fn_def)
  qed
next
  case 2
  then show ?case by simp
next
  case (3 name err re es rest)
  then show ?case by simp
next
  case (4 name fileInfo re es rest)
  then have w1: "walkable fileInfo re es" and w2: "walkable_names rest" by simp_all
  note ih1 = "4.IH"(1) [OF w1] and ih2 = "4.IH"(2) [OF w2]
  show ?case
    by (simp add: ih1 ih2 scan2_loop_append del: walk.simps visits.simps split: outcome.splits)
qed

section \<open>The glob loops and the first scan\<close>

lemma accepted_append:
  "accepted os pat (xs @ ys) = accepted os pat xs @ accepted os pat ys"
  by (induction os pat xs rule: accepted.induct) auto

lemma globScanner_loop_accepted:
  "accepted os pat (globScanner_loop os ps c) =
     accepted os pat c @ nondirs os (filter (stat_matches os pat) ps)"
proof (induction ps arbitrary: c)
  case Nil
  then show ?case by simp
next
  case (Cons q qs)
  show ?case
    by (cases "Stat os q") (auto simp: Cons stat_matches_def accepted_append)
qed

lemma globScanner_loop_no_nil:
  "\<forall>q. (q, None) \<notin> set c \<Longrightarrow> (q, None) \<notin> set (globScanner_loop os ps c)"
proof (induction ps arbitrary: c)
  case Nil
  then show ?case by simp
next
  case (Cons a ps)
  then show ?case by (cases "Stat os a") auto
qed

lemma scan1_glob_loop_eq: "scan1_glob_loop os ps st = apply_changes (nondirs os ps) st"
proof (induction ps arbitrary: st)
  case Nil
  then show ?case by simp
next
  case (Cons q qs)
  then show ?case by (cases "Stat os q") auto
qed

lemma nondirs_stat_ok: "nondirs os (filter (stat_ok os) ps) = nondirs os ps"
  by (induction ps) (auto simp: stat_ok_def split: sum.splits)

lemma scan2_frame:
  assumes "scan2 os dw = Done (evs, dw')"
  shows "\<exists>fs. dw' = dw\<lparr>files := fs\<rparr>"
proof -
  from assms obtain dw1 ch where
    a: "apply_changes (traversal os dw) (dw, [], {}) = (dw1, ch, fst ` set (traversal os dw))"
    and d: "dw' = dw1\<lparr>files := filter (\<lambda>kv. fst kv \<in> fst ` set (traversal os dw)) (files dw1)\<rparr>"
    by (rule scan2_DoneE)
  from apply_changes_frame [OF a] have "\<exists>fs. dw1 = dw\<lparr>files := fs\<rparr>" by (rule conjunct1)
  then obtain fs where d1: "dw1 = dw\<lparr>files := fs\<rparr>" by (rule exE)
  have "dw' = dw\<lparr>files := filter (\<lambda>kv. fst kv \<in> fst ` set (traversal os dw)) (files dw1)\<rparr>"
    unfolding d by (subst d1) simp
  then show ?thesis by (rule exI)
qed

lemma update_fresh: "k \<notin> fst ` set al \<Longrightarrow> AList.update k v al = al @ [(k, v)]"
  by (induction al) auto

lemma apply_changes_fresh:
  "distinct (map fst xs) \<Longrightarrow> fst ` set (files dw) \<inter> fst ` set xs = {} \<Longrightarrow>
   apply_changes xs (dw, ch, t) =
     (dw\<lparr>files := files dw @ xs\<rparr>, ch @ map added_event xs, t \<union> fst ` set xs)"
proof (induction xs arbitrary: dw ch t)
  case Nil
  then show ?case by simp
next
  case (Cons x xs)
  obtain p i where x: "x = (p, i)" by (cases x)
  from Cons.prems have f: "p \<notin> fst ` set (files dw)" by (auto simp: x)
  then have n: "map_of (files dw) p = None" by (simp add: map_of_eq_None_iff)
  have r: "record_change p i (dw, ch, t) =
      (dw\<lparr>files := files dw @ [(p, i)]\<rparr>, ch @ [added_event (p, i)], insert p t)"
    by (simp add: record_change_def hasChange_def n update_fresh [OF f] added_event_def)
  from Cons.prems have d: "distinct (map fst xs)"
    and e: "fst ` set (files (dw\<lparr>files := files dw @ [(p, i)]\<rparr>)) \<inter> fst ` set xs = {}"
    by (auto simp: x)
  show ?case
    unfolding x apply_changes_Cons r Cons.IH [OF d e] by simp
qed

lemma scan2_fresh:
  assumes "files dw = []" and "distinct (map fst (traversal os dw))"
    and "scan2 os dw = Done (evs, dw')"
  shows "evs = map added_event (traversal os dw)" and "files dw' = traversal os dw"
proof -
  let ?T = "fst ` set (traversal os dw)"
  from assms(3) obtain dw1 ch where
    a: "apply_changes (traversal os dw) (dw, [], {}) = (dw1, ch, ?T)"
    and e: "evs = ch @ map deleted_event (filter (\<lambda>kv. fst kv \<notin> ?T) (files dw1))"
    and d: "dw' = dw1\<lparr>files := filter (\<lambda>kv. fst kv \<in> ?T) (files dw1)\<rparr>"
    by (rule scan2_DoneE)
  have "fst ` set (files dw) \<inter> ?T = {}" by (simp add: assms(1))
  from apply_changes_fresh [OF assms(2) this, of "[]" "{}"] a
  have dw1: "files dw1 = traversal os dw" and ch: "ch = map added_event (traversal os dw)"
    by (simp_all add: assms(1))
  have k1: "filter (\<lambda>kv. fst kv \<notin> ?T) (traversal os dw) = []"
    by (auto simp: filter_empty_conv)
  have k2: "filter (\<lambda>kv. fst kv \<in> ?T) (traversal os dw) = traversal os dw"
    by (auto simp: filter_id_conv)
  show "evs = map added_event (traversal os dw)" unfolding e dw1 k1 ch by simp
  show "files dw' = traversal os dw" unfolding d by (simp add: dw1 k2)
qed

section \<open>The two variants\<close>

lemma recScanner_walkable:
  assumes "Tree os p = Node (Inr info) re es" and "walkable info re es"
  shows "recScanner os p = visits (Join os) p info es"
  using walk_recScanner_fn(1) [OF assms(2), of "Join os" p "[]"]
  by (simp add: recScanner_def assms(1) del: walk.simps visits.simps)

lemma Walk_scan1_fn_walkable:
  assumes "Tree os p = Node (Inr info) re es" and "walkable info re es"
  shows "Walk (Join os) (scan1_fn os) p (Tree os p) st =
     (case scan2_loop os (visits (Join os) p info es) st of
        Panic \<Rightarrow> Panic | Done st' \<Rightarrow> Done (None, st'))"
  using walk_scan1_fn(1) [OF assms(2), of "Join os" os p st]
  by (simp add: assms(1) del: walk.simps visits.simps split: outcome.splits)

lemma scan1_recursive:
  assumes "Recursive dw" and "scan dw = recScanner" and "walkable_tree (Tree os (path dw))"
  shows "scan1 os dw = scan2 os dw"
proof -
  obtain li re es where t: "Tree os (path dw) = Node li re es" by (cases "Tree os (path dw)")
  with assms(3) obtain info where li: "li = Inr info" and w: "walkable info re es"
    by (cases li) auto
  note t' = t [unfolded li]
  have r: "scan dw os (path dw) = visits (Join os) (path dw) info es"
    unfolding assms(2) by (rule recScanner_walkable [OF t' w])
  show ?thesis
    unfolding scan1_def scan2_def r using assms(1)
    by (simp add: Walk_scan1_fn_walkable [OF t' w] del: visits.simps split: outcome.splits)
qed

lemma scan1_glob:
  assumes "\<not> Recursive dw" and "scan dw = globScanner" and "glob_agrees os dw"
  shows "scan1 os dw = scan2 os dw"
proof -
  let ?ms = "globbed os (Join os (path dw) (Pattern dw))"
  let ?all = "globbed os (Join os (path dw) ''*'')"
  have g: "scan dw os (path dw) = globScanner_loop os ?all []"
    unfolding assms(2) by (simp add: globScanner_def globbed_def)
  have n: "\<forall>q. (q, None) \<notin> set (scan dw os (path dw))"
    unfolding g by (simp add: globScanner_loop_no_nil)
  have "accepted os (Pattern dw) (scan dw os (path dw)) =
      nondirs os (filter (stat_matches os (Pattern dw)) ?all)"
    unfolding g by (simp add: globScanner_loop_accepted)
  also have "\<dots> = nondirs os (filter (stat_ok os) ?ms)"
    using assms(3) by (simp add: glob_agrees_def)
  also have "\<dots> = nondirs os ?ms" by (rule nondirs_stat_ok)
  finally have a: "accepted os (Pattern dw) (scan dw os (path dw)) = nondirs os ?ms" .
  have l: "scan2_loop os (scan dw os (path dw)) (dw, [], {}) =
      Done (scan1_glob_loop os ?ms (dw, [], {}))"
    using scan2_loop_Done [OF n, of os "(dw, [], {})"] by (simp add: a scan1_glob_loop_eq)
  show ?thesis
    unfolding scan1_def scan2_def l using assms(1) by (simp add: globbed_def)
qed

section \<open>The scans of the sample environment\<close>

lemmas sample_defs = sample_os_def mk_file_def mk_dir_def watcher_def finfo_def dinfo_def
lemmas scan_defs = scan2_def globScanner_def recScanner_def recScanner_fn_def record_change_def
  hasChange_def matches_def scan1_def scan1_fn_def

lemma recScanner_os1:
  "recScanner os1 ''w'' =
     [(''w'', Some (dinfo ''w'')), (''w/a.txt'', Some (finfo ''a.txt'' 5)),
      (''w/b.go'', Some (finfo ''b.go'' 7)), (''w/sub'', Some (dinfo ''sub'')),
      (''w/sub/c.txt'', Some (finfo ''c.txt'' 2))]"
  by (simp add: os1_def sample_defs scan_defs)

lemma traversal_os1:
  "traversal os1 (watcher True ''*.txt'' fs) =
     [(''w/a.txt'', finfo ''a.txt'' 5), (''w/sub/c.txt'', finfo ''c.txt'' 2)]"
  by (simp add: traversal_def os1_def sample_defs scan_defs)

lemma scan2_os1_fresh:
  "scan2 os1 (watcher True ''*.txt'' []) =
     Done ([\<lparr>Type = Added, Path = ''w/a.txt'', Info = finfo ''a.txt'' 5\<rparr>,
            \<lparr>Type = Added, Path = ''w/sub/c.txt'', Info = finfo ''c.txt'' 2\<rparr>],
           watcher True ''*.txt''
             [(''w/a.txt'', finfo ''a.txt'' 5), (''w/sub/c.txt'', finfo ''c.txt'' 2)])"
  by (simp add: os1_def sample_defs scan_defs)

lemma scan2_os1_stale:
  "scan2 os1 (watcher True ''*.txt'' stale) =
     Done ([\<lparr>Type = Changed, Path = ''w/a.txt'', Info = finfo ''a.txt'' 5\<rparr>,
            \<lparr>Type = Added, Path = ''w/sub/c.txt'', Info = finfo ''c.txt'' 2\<rparr>,
            \<lparr>Type = Deleted, Path = ''w/old.txt'', Info = finfo ''old.txt'' 1\<rparr>],
           watcher True ''*.txt''
             [(''w/a.txt'', finfo ''a.txt'' 5), (''w/sub/c.txt'', finfo ''c.txt'' 2)])"
  by (simp add: os1_def sample_defs scan_defs stale_def)

lemma scan2_os1_ahead:
  "scan2 os1 (watcher True ''*.txt'' ahead) =
     Done ([\<lparr>Type = Added, Path = ''w/sub/c.txt'', Info = finfo ''c.txt'' 2\<rparr>],
           watcher True ''*.txt''
             [(''w/a.txt'', finfo ''a.txt'' 9), (''w/sub/c.txt'', finfo ''c.txt'' 2)])"
  by (simp add: os1_def sample_defs scan_defs ahead_def)

lemma scan2_os1_glob_stale:
  "scan2 os1 (watcher False ''*.txt'' stale) =
     Done ([\<lparr>Type = Changed, Path = ''w/a.txt'', Info = finfo ''a.txt'' 5\<rparr>,
            \<lparr>Type = Deleted, Path = ''w/old.txt'', Info = finfo ''old.txt'' 1\<rparr>],
           watcher False ''*.txt'' [(''w/a.txt'', finfo ''a.txt'' 5)])"
  by (simp add: os1_def sample_defs scan_defs stale_def)

lemma walkable_os1: "walkable_tree (Tree os1 ''w'')"
  by (simp add: os1_def sample_defs)

lemma glob_agrees_os1: "glob_agrees os1 (watcher False ''*.txt'' fs)"
  by (simp add: glob_agrees_def globbed_def stat_ok_def stat_matches_def matches_def
      os1_def sample_defs)

lemma recScanner_os_unreadable:
  "recScanner os_unreadable ''w'' = [(''w'', Some (dinfo ''w'')), (''w/a'', Some (dinfo ''a''))]"
  by (simp add: os_unreadable_def sample_defs scan_defs)

lemma recScanner_os_nostat:
  "recScanner os_nostat ''w'' = [(''w'', Some (dinfo ''w'')), (''w/a'', None)]"
  by (simp add: os_nostat_def sample_defs scan_defs)

lemma scan2_os_unreadable_fresh:
  "scan2 os_unreadable (watcher True ''*.txt'' []) = Done ([], watcher True ''*.txt'' [])"
  by (simp add: os_unreadable_def sample_defs scan_defs)

lemma scan1_os_unreadable_fresh:
  "scan1 os_unreadable (watcher True ''*.txt'' []) =
     Done ([\<lparr>Type = Added, Path = ''w/b.txt'', Info = finfo ''b.txt'' 4\<rparr>],
           watcher True ''*.txt'' [(''w/b.txt'', finfo ''b.txt'' 4)])"
  by (simp add: os_unreadable_def sample_defs scan_defs)

lemma scan2_os_unreadable_seen:
  "scan2 os_unreadable (watcher True ''*.txt'' [(''w/b.txt'', finfo ''b.txt'' 4)]) =
     Done ([\<lparr>Type = Deleted, Path = ''w/b.txt'', Info = finfo ''b.txt'' 4\<rparr>],
           watcher True ''*.txt'' [])"
  by (simp add: os_unreadable_def sample_defs scan_defs)

lemma scan2_os_nostat: "scan2 os_nostat (watcher True ''*.txt'' fs) = Panic"
  by (simp add: os_nostat_def sample_defs scan_defs)

lemma scan1_os_nostat: "scan1 os_nostat (watcher True ''*.txt'' fs) = Panic"
  by (simp add: os_nostat_def sample_defs scan_defs)

lemma scan1_os1_slash:
  "scan1 os1 (watcher False ''sub/*.txt'' []) =
     Done ([\<lparr>Type = Added, Path = ''w/sub/c.txt'', Info = finfo ''c.txt'' 2\<rparr>],
           watcher False ''sub/*.txt'' [(''w/sub/c.txt'', finfo ''c.txt'' 2)])"
  by (simp add: os1_def sample_defs scan_defs)

lemma scan2_os1_slash:
  "scan2 os1 (watcher False ''sub/*.txt'' []) = Done ([], watcher False ''sub/*.txt'' [])"
  by (simp add: os1_def sample_defs scan_defs)

lemma scan2_os1_observed:
  "scan2 os1 (observed pre []) =
     Done ([\<lparr>Type = Added, Path = ''w/a.txt'', Info = finfo ''a.txt'' 5\<rparr>,
            \<lparr>Type = Added, Path = ''w/sub/c.txt'', Info = finfo ''c.txt'' 2\<rparr>],
           observed pre [(''w/a.txt'', finfo ''a.txt'' 5), (''w/sub/c.txt'', finfo ''c.txt'' 2)])"
  by (simp add: observed_def os1_def sample_defs scan_defs)

lemma recScanner_Lstat_fails:
  assumes "lstat (Tree os p) = Inl err"
  shows "recScanner os p = [(p, None)]"
proof -
  obtain li re es where t: "Tree os p = Node li re es" by (cases "Tree os p")
  with assms have "li = Inl err" by simp
  then show ?thesis by (simp add: recScanner_def recScanner_fn_def t)
qed

lemma scan1_Lstat_fails:
  assumes "lstat (Tree os (path dw)) = Inl err" and "Recursive dw"
  shows "scan1 os dw = Panic"
proof -
  obtain li re es where t: "Tree os (path dw) = Node li re es" by (cases "Tree os (path dw)")
  with assms have "li = Inl err" by simp
  then show ?thesis using assms(2) by (simp add: scan1_def scan1_fn_def t)
qed

lemma walk_names_recScanner_fn_append:
  "walkable_names pre \<Longrightarrow>
   walk_names J recScanner_fn p (pre @ ys) c =
     walk_names J recScanner_fn p ys (c @ visits_names J p pre)"
proof (induction pre arbitrary: c)
  case Nil
  then show ?case by simp
next
  case (Cons a pre)
  obtain name li re es where a: "a = (name, Node li re es)"
    by (cases a, cases "snd a") auto
  with Cons.prems obtain fileInfo where li: "li = Inr fileInfo"
    and w: "walkable fileInfo re es" and wp: "walkable_names pre"
    by (cases li) auto
  show ?case
    unfolding a li
    by (simp add: walk_recScanner_fn(1) [OF w] Cons.IH [OF wp] del: walk.simps visits.simps)
qed

lemma recScanner_child_Lstat_fails:
  assumes "Tree os q = Node (Inr info) None (pre @ (name, Node (Inl err) re es) # rest)"
    and "IsDir info" and "walkable_names pre" and "err \<noteq> SkipDir"
  shows "recScanner os q =
     (q, Some info) # visits_names (Join os) q pre @ [(Join os q name, None)]"
proof -
  have "walk_names (Join os) recScanner_fn q (pre @ (name, Node (Inl err) re es) # rest)
      [(q, Some info)] =
      Done (Some err, (q, Some info) # visits_names (Join os) q pre @ [(Join os q name, None)])"
    unfolding walk_names_recScanner_fn_append [OF assms(3)]
    using assms(4) by (simp add: recScanner_fn_def)
  then show ?thesis
    using assms(2) by (simp add: recScanner_def recScanner_fn_def assms(1))
qed

lemma recScanner_child_unreadable:
  assumes "Tree os q = Node (Inr info) None (pre @ (name, Node (Inr sub) (Some err) es) # rest)"
    and "IsDir info" and "IsDir sub" and "walkable_names pre" and "err \<noteq> SkipDir"
  shows "recScanner os q =
     (q, Some info) # visits_names (Join os) q pre @ [(Join os q name, Some sub)]"
proof -
  have "walk_names (Join os) recScanner_fn q (pre @ (name, Node (Inr sub) (Some err) es) # rest)
      [(q, Some info)] =
      Done (Some err, (q, Some info) # visits_names (Join os) q pre @ [(Join os q name, Some sub)])"
    unfolding walk_names_recScanner_fn_append [OF assms(4)]
    using assms(3,5) by (simp add: recScanner_fn_def)
  then show ?thesis
    using assms(2) by (simp add: recScanner_def recScanner_fn_def assms(1))
qed

section \<open>Properties of the watcher\<close>

text \<open>
  C1. A scan completes unless the scanner yields nil metadata (\<open>scan2_eq\<close>). In a
  scan that completes, a path that the fresh traversal yields and the snapshot
  does not hold gets exactly one Added event (and a path the snapshot holds gets
  none). A path that the snapshot holds and the traversal yields once gets one Changed
  event if the new modification time is strictly after the stored one, and no event at
  all if it is equal or earlier.
\<close>

theorem change_detection:
  assumes "scan2 os dw = Done (evs, dw')" and "(p, info) \<in> set (traversal os dw)"
  shows "length (filter (\<lambda>e. Type e = Added \<and> Path e = p) evs) =
       (if map_of (files dw) p = None then 1 else 0) \<and>
     (\<forall>old. map_of (files dw) p = Some old \<and>
        filter (\<lambda>x. fst x = p) (traversal os dw) = [(p, info)] \<longrightarrow>
        filter (\<lambda>e. Path e = p) evs =
          (if ModTime old < ModTime info then [\<lparr>Type = Changed, Path = p, Info = info\<rparr>] else []))"
proof -
  let ?T = "fst ` set (traversal os dw)"
  from assms(1) obtain dw1 ch where
    a: "apply_changes (traversal os dw) (dw, [], {}) = (dw1, ch, ?T)"
    and e: "evs = ch @ map deleted_event (filter (\<lambda>kv. fst kv \<notin> ?T) (files dw1))"
    by (rule scan2_DoneE)
  from assms(2) have pT: "p \<in> ?T" by (metis fst_conv image_eqI)
  have "length (filter (\<lambda>e. Type e = Added \<and> Path e = p) evs) =
      (if map_of (files dw) p = None then 1 else 0)"
    unfolding e using apply_changes_added_count [OF a, of p] pT
    by (simp add: deleted_part_added)
  moreover have "filter (\<lambda>e. Path e = p) evs =
      (if ModTime old < ModTime info then [\<lparr>Type = Changed, Path = p, Info = info\<rparr>] else [])"
    if "map_of (files dw) p = Some old" "filter (\<lambda>x. fst x = p) (traversal os dw) = [(p, info)]"
    for old
    unfolding e using apply_changes_once [OF a that(2)] that(1) pT
    by (simp add: deleted_part_touched)
  ultimately show ?thesis by blast
qed

theorem change_detection_witness:
  "scan2 os1 (watcher True ''*.txt'' stale) =
     Done ([\<lparr>Type = Changed, Path = ''w/a.txt'', Info = finfo ''a.txt'' 5\<rparr>,
            \<lparr>Type = Added, Path = ''w/sub/c.txt'', Info = finfo ''c.txt'' 2\<rparr>,
            \<lparr>Type = Deleted, Path = ''w/old.txt'', Info = finfo ''old.txt'' 1\<rparr>],
           watcher True ''*.txt''
             [(''w/a.txt'', finfo ''a.txt'' 5), (''w/sub/c.txt'', finfo ''c.txt'' 2)]) \<and>
   (''w/sub/c.txt'', finfo ''c.txt'' 2) \<in> set (traversal os1 (watcher True ''*.txt'' stale)) \<and>
   map_of (files (watcher True ''*.txt'' stale)) ''w/sub/c.txt'' = None \<and>
   length (filter (\<lambda>e. Type e = Added \<and> Path e = ''w/sub/c.txt'')
     [\<lparr>Type = Changed, Path = ''w/a.txt'', Info = finfo ''a.txt'' 5\<rparr>,
      \<lparr>Type = Added, Path = ''w/sub/c.txt'', Info = finfo ''c.txt'' 2\<rparr>,
      \<lparr>Type = Deleted, Path = ''w/old.txt'', Info = finfo ''old.txt'' 1\<rparr>]) = 1 \<and>
   (''w/a.txt'', finfo ''a.txt'' 5) \<in> set (traversal os1 (watcher True ''*.txt'' stale)) \<and>
   map_of (files (watcher True ''*.txt'' stale)) ''w/a.txt'' = Some (finfo ''a.txt'' 3) \<and>
   filter (\<lambda>e. Path e = ''w/a.txt'')
     [\<lparr>Type = Changed, Path = ''w/a.txt'', Info = finfo ''a.txt'' 5\<rparr>,
      \<lparr>Type = Added, Path = ''w/sub/c.txt'', Info = finfo ''c.txt'' 2\<rparr>,
      \<lparr>Type = Deleted, Path = ''w/old.txt'', Info = finfo ''old.txt'' 1\<rparr>] =
     [\<lparr>Type = Changed, Path = ''w/a.txt'', Info = finfo ''a.txt'' 5\<rparr>] \<and>
   map_of (files (watcher True ''*.txt'' ahead)) ''w/a.txt'' = Some (finfo ''a.txt'' 9) \<and>
   filter (\<lambda>e. Path e = ''w/a.txt'')
     [\<lparr>Type = Added, Path = ''w/sub/c.txt'', Info = finfo ''c.txt'' 2\<rparr>] = []"
proof -
  have c: "(''w/sub/c.txt'', finfo ''c.txt'' 2) \<in> set (traversal os1 (watcher True ''*.txt'' stale))"
    and a: "(''w/a.txt'', finfo ''a.txt'' 5) \<in> set (traversal os1 (watcher True ''*.txt'' stale))"
    and a': "(''w/a.txt'', finfo ''a.txt'' 5) \<in> set (traversal os1 (watcher True ''*.txt'' ahead))"
    by (simp_all add: traversal_os1)
  have once: "filter (\<lambda>x. fst x = ''w/a.txt'') (traversal os1 (watcher True ''*.txt'' fs)) =
      [(''w/a.txt'', finfo ''a.txt'' 5)]" for fs
    by (simp add: traversal_os1)
  have m1: "map_of (files (watcher True ''*.txt'' stale)) ''w/sub/c.txt'' = None"
    and m2: "map_of (files (watcher True ''*.txt'' stale)) ''w/a.txt'' = Some (finfo ''a.txt'' 3)"
    and m3: "map_of (files (watcher True ''*.txt'' ahead)) ''w/a.txt'' = Some (finfo ''a.txt'' 9)"
    by (simp_all add: watcher_def stale_def ahead_def)
  have t: "ModTime (finfo ''a.txt'' 3) < ModTime (finfo ''a.txt'' 5)"
    "\<not> ModTime (finfo ''a.txt'' 9) < ModTime (finfo ''a.txt'' 5)"
    by (simp_all add: finfo_def)
  from change_detection [OF scan2_os1_stale c] m1
  have 1: "length (filter (\<lambda>e. Type e = Added \<and> Path e = ''w/sub/c.txt'')
     [\<lparr>Type = Changed, Path = ''w/a.txt'', Info = finfo ''a.txt'' 5\<rparr>,
      \<lparr>Type = Added, Path = ''w/sub/c.txt'', Info = finfo ''c.txt'' 2\<rparr>,
      \<lparr>Type = Deleted, Path = ''w/old.txt'', Info = finfo ''old.txt'' 1\<rparr>]) = 1"
    by presburger
  from change_detection [OF scan2_os1_stale a] m2 once t(1)
  have 2: "filter (\<lambda>e. Path e = ''w/a.txt'')
     [\<lparr>Type = Changed, Path = ''w/a.txt'', Info = finfo ''a.txt'' 5\<rparr>,
      \<lparr>Type = Added, Path = ''w/sub/c.txt'', Info = finfo ''c.txt'' 2\<rparr>,
      \<lparr>Type = Deleted, Path = ''w/old.txt'', Info = finfo ''old.txt'' 1\<rparr>] =
     [\<lparr>Type = Changed, Path = ''w/a.txt'', Info = finfo ''a.txt'' 5\<rparr>]"
    by presburger
  from change_detection [OF scan2_os1_ahead a'] m3 once t(2)
  have 3: "filter (\<lambda>e. Path e = ''w/a.txt'')
     [\<lparr>Type = Added, Path = ''w/sub/c.txt'', Info = finfo ''c.txt'' 2\<rparr>] = []"
    by presburger
  from scan2_os1_stale c a m1 m2 m3 1 2 3 show ?thesis by presburger
qed

text \<open>
  C2. After a scan that completes, the paths of the snapshot are exactly the paths
  that the scan's traversal yields with metadata that is not a directory and whose base
  name matches the pattern. The snapshot before the scan is arbitrary, so this holds
  after each scan of any sequence of scans.
\<close>

theorem snapshot_is_traversal:
  assumes "scan2 os dw = Done (evs, dw')"
  shows "fst ` set (files dw') =
     {p. \<exists>info. (p, Some info) \<in> set (scan dw os (path dw)) \<and> \<not> IsDir info \<and>
          matches os (Pattern dw) (Name info)}"
proof -
  let ?T = "fst ` set (traversal os dw)"
  from assms obtain dw1 ch where
    a: "apply_changes (traversal os dw) (dw, [], {}) = (dw1, ch, ?T)"
    and d: "dw' = dw1\<lparr>files := filter (\<lambda>kv. fst kv \<in> ?T) (files dw1)\<rparr>"
    by (rule scan2_DoneE)
  from apply_changes_frame [OF a]
  have k: "fst ` set (files dw1) = fst ` set (files dw) \<union> ?T" by simp
  have "fst ` set (files dw') = fst ` set (files dw1) \<inter> ?T"
    unfolding d by (auto simp: image_iff)
  with k have "fst ` set (files dw') = ?T" by auto
  then show ?thesis by (simp add: traversal_def accepted_set)
qed

theorem snapshot_is_traversal_witness:
  "scan2 os1 (watcher True ''*.txt'' stale) =
     Done ([\<lparr>Type = Changed, Path = ''w/a.txt'', Info = finfo ''a.txt'' 5\<rparr>,
            \<lparr>Type = Added, Path = ''w/sub/c.txt'', Info = finfo ''c.txt'' 2\<rparr>,
            \<lparr>Type = Deleted, Path = ''w/old.txt'', Info = finfo ''old.txt'' 1\<rparr>],
           watcher True ''*.txt''
             [(''w/a.txt'', finfo ''a.txt'' 5), (''w/sub/c.txt'', finfo ''c.txt'' 2)]) \<and>
   {p. \<exists>info. (p, Some info) \<in> set (recScanner os1 ''w'') \<and> \<not> IsDir info \<and>
          matches os1 ''*.txt'' (Name info)} = {''w/a.txt'', ''w/sub/c.txt''}"
  using snapshot_is_traversal [OF scan2_os1_stale] scan2_os1_stale
  by (simp add: watcher_def insert_commute)

text \<open>
  C3. A scan that completes leaves a state in which a second scan of the same
  directory contents reports no event and leaves the watcher, and so its snapshot,
  as it is.
\<close>

theorem scan_twice_no_events:
  assumes "scan2 os dw = Done (evs, dw')"
  shows "scan2 os dw' = Done ([], dw')"
proof -
  let ?T = "fst ` set (traversal os dw)"
  from assms obtain dw1 ch where
    a: "apply_changes (traversal os dw) (dw, [], {}) = (dw1, ch, ?T)"
    and d: "dw' = dw1\<lparr>files := filter (\<lambda>kv. fst kv \<in> ?T) (files dw1)\<rparr>"
    and n: "\<forall>p. (p, None) \<notin> set (scan dw os (path dw))"
    by (rule scan2_DoneE)
  from apply_changes_frame [OF a] have "\<exists>fs. dw1 = dw\<lparr>files := fs\<rparr>" by (rule conjunct1)
  then obtain fs where d1: "dw1 = dw\<lparr>files := fs\<rparr>" by (rule exE)
  have same: "scan dw' = scan dw" "path dw' = path dw" "Pattern dw' = Pattern dw"
    unfolding d d1 by simp_all
  then have tr: "traversal os dw' = traversal os dw" by (simp add: traversal_def)
  have fd: "files dw' = filter (\<lambda>kv. fst kv \<in> ?T) (files dw1)" unfolding d by simp
  have st: "\<forall>x \<in> set (traversal os dw).
      \<exists>old. map_of (files dw') (fst x) = Some old \<and> ModTime (snd x) \<le> ModTime old"
  proof
    fix x assume x: "x \<in> set (traversal os dw)"
    with apply_changes_newer [OF a] obtain old where
      o: "map_of (files dw1) (fst x) = Some old" "ModTime (snd x) \<le> ModTime old" by blast
    from x have "fst x \<in> ?T" by simp
    then have "map_of (files dw') (fst x) = map_of (files dw1) (fst x)"
      unfolding fd using map_of_filter_key [of "\<lambda>k. k \<in> ?T" "files dw1" "fst x"] by simp
    with o show "\<exists>old. map_of (files dw') (fst x) = Some old \<and> ModTime (snd x) \<le> ModTime old"
      by simp
  qed
  have ap: "apply_changes (traversal os dw') (dw', [], {}) = (dw', [], ?T)"
    unfolding tr using apply_changes_stable [OF st, of "[]" "{}"] by simp
  have sub: "fst ` set (files dw') \<subseteq> ?T" unfolding fd by auto
  have k1: "filter (\<lambda>kv. fst kv \<notin> ?T) (files dw') = []"
    using sub by (auto simp: filter_empty_conv)
  have k2: "filter (\<lambda>kv. fst kv \<in> ?T) (files dw') = files dw'"
    using sub by (auto simp: filter_id_conv)
  have n': "\<not> (\<exists>p. (p, None) \<in> set (scan dw' os (path dw')))"
    unfolding same using n by blast
  have "scan2 os dw' = Done ([] @ map deleted_event (filter (\<lambda>kv. fst kv \<notin> ?T) (files dw')),
      dw'\<lparr>files := filter (\<lambda>kv. fst kv \<in> ?T) (files dw')\<rparr>)"
    unfolding scan2_eq [of os dw'] ap using n' by simp
  then show ?thesis unfolding k1 k2 by simp
qed

theorem scan_twice_no_events_witness:
  "scan2 os1 (watcher True ''*.txt'' stale) =
     Done ([\<lparr>Type = Changed, Path = ''w/a.txt'', Info = finfo ''a.txt'' 5\<rparr>,
            \<lparr>Type = Added, Path = ''w/sub/c.txt'', Info = finfo ''c.txt'' 2\<rparr>,
            \<lparr>Type = Deleted, Path = ''w/old.txt'', Info = finfo ''old.txt'' 1\<rparr>],
           watcher True ''*.txt''
             [(''w/a.txt'', finfo ''a.txt'' 5), (''w/sub/c.txt'', finfo ''c.txt'' 2)]) \<and>
   scan2 os1 (watcher True ''*.txt''
       [(''w/a.txt'', finfo ''a.txt'' 5), (''w/sub/c.txt'', finfo ''c.txt'' 2)]) =
     Done ([], watcher True ''*.txt''
       [(''w/a.txt'', finfo ''a.txt'' 5), (''w/sub/c.txt'', finfo ''c.txt'' 2)])"
  using scan_twice_no_events [OF scan2_os1_stale] scan2_os1_stale by simp

text \<open>
  C4. In a scan that completes, a path of the snapshot (a map, its keys distinct) that
  the traversal does not touch gets exactly one event, a Deleted event that carries
  the stored metadata; the new snapshot does not hold the path; and in the batch every
  Deleted event comes after every Added or Changed event.
\<close>

theorem deletion_semantics:
  assumes "scan2 os dw = Done (evs, dw')" and "distinct (map fst (files dw))"
    and "map_of (files dw) p = Some info" and "p \<notin> fst ` set (traversal os dw)"
  shows "filter (\<lambda>e. Path e = p) evs = [\<lparr>Type = Deleted, Path = p, Info = info\<rparr>] \<and>
     p \<notin> fst ` set (files dw') \<and>
     (\<exists>xs ys. evs = xs @ ys \<and> (\<forall>e \<in> set xs. Type e \<noteq> Deleted) \<and>
        (\<forall>e \<in> set ys. Type e = Deleted))"
proof -
  let ?T = "fst ` set (traversal os dw)"
  from assms(1) obtain dw1 ch where
    a: "apply_changes (traversal os dw) (dw, [], {}) = (dw1, ch, ?T)"
    and e: "evs = ch @ map deleted_event (filter (\<lambda>kv. fst kv \<notin> ?T) (files dw1))"
    and d: "dw' = dw1\<lparr>files := filter (\<lambda>kv. fst kv \<in> ?T) (files dw1)\<rparr>"
    by (rule scan2_DoneE)
  from apply_changes_other [OF assms(4) a] assms(3)
  have m: "map_of (files dw1) p = Some info" "filter (\<lambda>e. Path e = p) ch = []" by simp_all
  have dist: "distinct (map fst (files dw1))" by (rule apply_changes_distinct [OF a assms(2)])
  have 1: "filter (\<lambda>e. Path e = p) evs = [\<lparr>Type = Deleted, Path = p, Info = info\<rparr>]"
    unfolding e using deleted_part_untouched [OF dist m(1) assms(4)] m(2) by simp
  have fd: "files dw' = filter (\<lambda>kv. fst kv \<in> ?T) (files dw1)" unfolding d by simp
  have 2: "p \<notin> fst ` set (files dw')" unfolding fd using assms(4) by auto
  from apply_changes_events [OF a] have n: "\<forall>e \<in> set ch. Type e \<noteq> Deleted" by simp
  have "\<forall>e \<in> set (map deleted_event (filter (\<lambda>kv. fst kv \<notin> ?T) (files dw1))). Type e = Deleted"
    by (simp add: deleted_event_def)
  with e n have 3: "\<exists>xs ys. evs = xs @ ys \<and> (\<forall>e \<in> set xs. Type e \<noteq> Deleted) \<and>
        (\<forall>e \<in> set ys. Type e = Deleted)" by blast
  from 1 2 3 show ?thesis by blast
qed

theorem deletion_semantics_witness:
  "scan2 os1 (watcher True ''*.txt'' stale) =
     Done ([\<lparr>Type = Changed, Path = ''w/a.txt'', Info = finfo ''a.txt'' 5\<rparr>,
            \<lparr>Type = Added, Path = ''w/sub/c.txt'', Info = finfo ''c.txt'' 2\<rparr>,
            \<lparr>Type = Deleted, Path = ''w/old.txt'', Info = finfo ''old.txt'' 1\<rparr>],
           watcher True ''*.txt''
             [(''w/a.txt'', finfo ''a.txt'' 5), (''w/sub/c.txt'', finfo ''c.txt'' 2)]) \<and>
   distinct (map fst (files (watcher True ''*.txt'' stale))) \<and>
   map_of (files (watcher True ''*.txt'' stale)) ''w/old.txt'' = Some (finfo ''old.txt'' 1) \<and>
   ''w/old.txt'' \<notin> fst ` set (traversal os1 (watcher True ''*.txt'' stale)) \<and>
   filter (\<lambda>e. Path e = ''w/old.txt'')
     [\<lparr>Type = Changed, Path = ''w/a.txt'', Info = finfo ''a.txt'' 5\<rparr>,
      \<lparr>Type = Added, Path = ''w/sub/c.txt'', Info = finfo ''c.txt'' 2\<rparr>,
      \<lparr>Type = Deleted, Path = ''w/old.txt'', Info = finfo ''old.txt'' 1\<rparr>] =
     [\<lparr>Type = Deleted, Path = ''w/old.txt'', Info = finfo ''old.txt'' 1\<rparr>] \<and>
   ''w/old.txt'' \<notin> fst ` set (files (watcher True ''*.txt''
       [(''w/a.txt'', finfo ''a.txt'' 5), (''w/sub/c.txt'', finfo ''c.txt'' 2)]))"
proof -
  have d: "distinct (map fst (files (watcher True ''*.txt'' stale)))"
    and m: "map_of (files (watcher True ''*.txt'' stale)) ''w/old.txt'' = Some (finfo ''old.txt'' 1)"
    by (simp_all add: watcher_def stale_def)
  have n: "''w/old.txt'' \<notin> fst ` set (traversal os1 (watcher True ''*.txt'' stale))"
    by (simp add: traversal_os1)
  from deletion_semantics [OF scan2_os1_stale d m n] scan2_os1_stale d m n
  show ?thesis by presburger
qed

text \<open>
  C5. \<^verbatim>\<open>Start\<close> on a watcher that is not running scans once at once. The state
  that \<^verbatim>\<open>Start\<close> leaves is the state after that scan, with the ticker set. If
  \<^verbatim>\<open>Preload\<close> is set nothing is sent, whatever the scan found; if it is not, the
  batch of the scan is sent to every observer (an empty batch is not sent). When the
  snapshot is empty, as it is after \<^verbatim>\<open>New\<close>, the batch holds one Added event for each
  file of the traversal.
\<close>

theorem preload_semantics:
  assumes "ticker dw = None"
    and "scan2 os (if Recursive dw then dw\<lparr>scan := recScanner\<rparr> else dw) = Done (evs, dw1)"
  shows "fst (Start os now dw sent) =
       (if Preload dw \<or> evs = [] then sent
        else sent @ map (\<lambda>ch. (ch, \<lparr>At = now, Events = evs\<rparr>)) (observers dw)) \<and>
     snd (Start os now dw sent) =
       (if sint (Interval dw * Millisecond) \<le> 0 then Panic
        else Done (dw1\<lparr>ticker := Some (Ticker (Interval dw * Millisecond))\<rparr>)) \<and>
     (files dw = [] \<and>
      distinct (map fst (traversal os (if Recursive dw then dw\<lparr>scan := recScanner\<rparr> else dw))) \<longrightarrow>
        evs = map added_event (traversal os (if Recursive dw then dw\<lparr>scan := recScanner\<rparr> else dw)) \<and>
        files dw1 = traversal os (if Recursive dw then dw\<lparr>scan := recScanner\<rparr> else dw))"
proof -
  let ?dw0 = "if Recursive dw then dw\<lparr>scan := recScanner\<rparr> else dw"
  from scan2_frame [OF assms(2)] obtain fs where d1: "dw1 = ?dw0\<lparr>files := fs\<rparr>" by (rule exE)
  have same: "Preload dw1 = Preload dw" "observers dw1 = observers dw" "Interval dw1 = Interval dw"
    unfolding d1 by simp_all
  have 1: "fst (Start os now dw sent) =
       (if Preload dw \<or> evs = [] then sent
        else sent @ map (\<lambda>ch. (ch, \<lparr>At = now, Events = evs\<rparr>)) (observers dw))"
    using assms by (simp add: Start_def Let_def same notify_def notify_loop_eq NewTicker_def)
  have 2: "snd (Start os now dw sent) =
       (if sint (Interval dw * Millisecond) \<le> 0 then Panic
        else Done (dw1\<lparr>ticker := Some (Ticker (Interval dw * Millisecond))\<rparr>))"
    using assms by (simp add: Start_def Let_def same NewTicker_def)
  have 3: "evs = map added_event (traversal os ?dw0) \<and> files dw1 = traversal os ?dw0"
    if "files dw = []" "distinct (map fst (traversal os ?dw0))"
  proof -
    from that(1) have "files ?dw0 = []" by simp
    from scan2_fresh [OF this that(2) assms(2)] show ?thesis by simp
  qed
  from 1 2 3 show ?thesis by blast
qed

theorem preload_semantics_witness:
  "ticker (observed True []) = None \<and> ticker (observed False []) = None \<and>
   files (observed True []) = [] \<and>
   distinct (map fst (traversal os1 (observed True []))) \<and>
   scan2 os1 (observed True []) =
     Done ([\<lparr>Type = Added, Path = ''w/a.txt'', Info = finfo ''a.txt'' 5\<rparr>,
            \<lparr>Type = Added, Path = ''w/sub/c.txt'', Info = finfo ''c.txt'' 2\<rparr>],
           observed True [(''w/a.txt'', finfo ''a.txt'' 5), (''w/sub/c.txt'', finfo ''c.txt'' 2)]) \<and>
   Start os1 10 (observed True []) [] =
     ([], Done ((observed True [(''w/a.txt'', finfo ''a.txt'' 5), (''w/sub/c.txt'', finfo ''c.txt'' 2)])
                 \<lparr>ticker := Some (Ticker 2000000000)\<rparr>)) \<and>
   Start os1 10 (observed False []) [] =
     ([(7, \<lparr>At = 10, Events = [\<lparr>Type = Added, Path = ''w/a.txt'', Info = finfo ''a.txt'' 5\<rparr>,
            \<lparr>Type = Added, Path = ''w/sub/c.txt'', Info = finfo ''c.txt'' 2\<rparr>]\<rparr>),
       (3, \<lparr>At = 10, Events = [\<lparr>Type = Added, Path = ''w/a.txt'', Info = finfo ''a.txt'' 5\<rparr>,
            \<lparr>Type = Added, Path = ''w/sub/c.txt'', Info = finfo ''c.txt'' 2\<rparr>]\<rparr>)],
      Done ((observed False [(''w/a.txt'', finfo ''a.txt'' 5), (''w/sub/c.txt'', finfo ''c.txt'' 2)])
                 \<lparr>ticker := Some (Ticker 2000000000)\<rparr>))"
proof -
  have r: "Recursive (observed pre fs)" "ticker (observed pre fs) = None"
    "Preload (observed pre fs) = pre" "observers (observed pre fs) = [7, 3]"
    "Interval (observed pre fs) = 2000" "(observed pre fs)\<lparr>scan := recScanner\<rparr> = observed pre fs"
    for pre fs
    by (simp_all add: observed_def watcher_def)
  have s: "scan2 os1 (if Recursive (observed pre []) then (observed pre [])\<lparr>scan := recScanner\<rparr>
        else observed pre []) =
      Done ([\<lparr>Type = Added, Path = ''w/a.txt'', Info = finfo ''a.txt'' 5\<rparr>,
            \<lparr>Type = Added, Path = ''w/sub/c.txt'', Info = finfo ''c.txt'' 2\<rparr>],
           observed pre [(''w/a.txt'', finfo ''a.txt'' 5), (''w/sub/c.txt'', finfo ''c.txt'' 2)])"
    for pre
    by (simp add: r scan2_os1_observed)
  have i: "sint ((2000 :: 64 word) * Millisecond) = 2000000000"
    "(2000 :: 64 word) * Millisecond = 2000000000"
    by (simp_all add: Millisecond_def)
  have t: "Start os1 10 (observed True []) [] =
     ([], Done ((observed True [(''w/a.txt'', finfo ''a.txt'' 5), (''w/sub/c.txt'', finfo ''c.txt'' 2)])
                 \<lparr>ticker := Some (Ticker 2000000000)\<rparr>))"
    using preload_semantics [OF r(2) [of True "[]"] s [of True], where now = 10 and sent = "[]"]
    by (simp add: r i prod_eq_iff)
  have f: "Start os1 10 (observed False []) [] =
     ([(7, \<lparr>At = 10, Events = [\<lparr>Type = Added, Path = ''w/a.txt'', Info = finfo ''a.txt'' 5\<rparr>,
            \<lparr>Type = Added, Path = ''w/sub/c.txt'', Info = finfo ''c.txt'' 2\<rparr>]\<rparr>),
       (3, \<lparr>At = 10, Events = [\<lparr>Type = Added, Path = ''w/a.txt'', Info = finfo ''a.txt'' 5\<rparr>,
            \<lparr>Type = Added, Path = ''w/sub/c.txt'', Info = finfo ''c.txt'' 2\<rparr>]\<rparr>)],
      Done ((observed False [(''w/a.txt'', finfo ''a.txt'' 5), (''w/sub/c.txt'', finfo ''c.txt'' 2)])
                 \<lparr>ticker := Some (Ticker 2000000000)\<rparr>))"
    using preload_semantics [OF r(2) [of False "[]"] s [of False], where now = 10 and sent = "[]"]
    by (simp add: r i prod_eq_iff)
  have e: "files (observed True []) = []" by (simp add: observed_def watcher_def)
  have d: "distinct (map fst (traversal os1 (observed True [])))"
    by (simp add: traversal_def observed_def os1_def sample_defs scan_defs)
  from r(2) scan2_os1_observed t f e d show ?thesis by simp
qed

text \<open>
  C6. \<^verbatim>\<open>notify\<close> with an empty event list sends nothing; otherwise it sends the batch
  once on every channel of \<^verbatim>\<open>observers\<close>, in the order of the list, and
  \<^verbatim>\<open>AddObserver\<close> and \<^verbatim>\<open>AddNewObserver\<close> put a channel at the end of that list.
\<close>

theorem notify_contract:
  "notify dw evAt sent =
     (if Events evAt = [] then sent else sent @ map (\<lambda>ch. (ch, evAt)) (observers dw)) \<and>
   observers (AddObserver dw obs) = observers dw @ [obs] \<and>
   observers (snd (AddNewObserver dw obs)) = observers dw @ [obs]"
  by (simp add: notify_def notify_loop_eq AddObserver_def AddNewObserver_def)

theorem notify_contract_witness:
  "notify (AddObserver (AddObserver (watcher False ''*'' []) 7) 3) \<lparr>At = 10, Events = []\<rparr> [] = [] \<and>
   notify (AddObserver (AddObserver (watcher False ''*'' []) 7) 3)
     \<lparr>At = 10, Events = [deleted_event (''w/a'', finfo ''a'' 1)]\<rparr> [] =
     [(7, \<lparr>At = 10, Events = [deleted_event (''w/a'', finfo ''a'' 1)]\<rparr>),
      (3, \<lparr>At = 10, Events = [deleted_event (''w/a'', finfo ''a'' 1)]\<rparr>)]"
proof -
  have o: "observers (AddObserver (AddObserver (watcher False ''*'' []) 7) 3) = [7, 3]"
    using notify_contract [of "AddObserver (watcher False ''*'' []) 7" _ _ 3]
      notify_contract [of "watcher False ''*'' []" _ _ 7]
    by (simp add: watcher_def)
  show ?thesis
    using notify_contract [of "AddObserver (AddObserver (watcher False ''*'' []) 7) 3"
        "\<lparr>At = 10, Events = []\<rparr>" "[]"]
      notify_contract [of "AddObserver (AddObserver (watcher False ''*'' []) 7) 3"
        "\<lparr>At = 10, Events = [deleted_event (''w/a'', finfo ''a'' 1)]\<rparr>" "[]"]
    by (simp add: o)
qed

text \<open>
  C7. The specification has an entry that cannot be read left out of the scan, and
  the walk going on to its siblings. The code does otherwise in recursive mode:
  \<^verbatim>\<open>recScanner\<close> forwards the entry and returns the error to \<^verbatim>\<open>Walk\<close>, which ends
  the walk, so that the file after the entry is never visited. With a directory that
  cannot be read, the file \<^verbatim>\<open>b.txt\<close>, still there and known from an earlier scan, is
  reported Deleted and leaves the snapshot; with an entry whose \<^verbatim>\<open>Lstat\<close> fails,
  the scan panics. (\<open>recScanner_child_unreadable\<close> and \<open>recScanner_child_Lstat_fails\<close>
  give what \<^verbatim>\<open>recScanner\<close> yields at such an entry in any directory.)
\<close>

theorem walk_error_ends_walk:
  "Stat os_unreadable ''w/b.txt'' = Inr (finfo ''b.txt'' 4) \<and>
   recScanner os_unreadable ''w'' =
     [(''w'', Some (dinfo ''w'')), (''w/a'', Some (dinfo ''a''))] \<and>
   scan2 os_unreadable (watcher True ''*.txt'' [(''w/b.txt'', finfo ''b.txt'' 4)]) =
     Done ([\<lparr>Type = Deleted, Path = ''w/b.txt'', Info = finfo ''b.txt'' 4\<rparr>],
           watcher True ''*.txt'' []) \<and>
   Stat os_nostat ''w/b.txt'' = Inr (finfo ''b.txt'' 4) \<and>
   recScanner os_nostat ''w'' = [(''w'', Some (dinfo ''w'')), (''w/a'', None)] \<and>
   scan2 os_nostat (watcher True ''*.txt'' [(''w/b.txt'', finfo ''b.txt'' 4)]) = Panic"
proof -
  have "Stat os_unreadable ''w/b.txt'' = Inr (finfo ''b.txt'' 4)"
    by (simp add: os_unreadable_def sample_defs)
  moreover have "Stat os_nostat ''w/b.txt'' = Inr (finfo ''b.txt'' 4)"
    by (simp add: os_nostat_def sample_defs)
  ultimately show ?thesis
    by (simp add: recScanner_os_unreadable scan2_os_unreadable_seen recScanner_os_nostat
        scan2_os_nostat)
qed

text \<open>
  C8, as amended. The inline variant \<^verbatim>\<open>scan1\<close> and the scanner variant \<^verbatim>\<open>scan2\<close>,
  with the scanner that \<^verbatim>\<open>Start\<close> selects from the recursive flag, return the same
  events and the same watcher state when the traversal meets no error: in recursive
  mode when the walk can read every entry and every directory, and in non-recursive
  mode when the glob of the pattern and the glob of \<^verbatim>\<open>*\<close> filtered by the pattern
  select the same readable paths. (Both variants enumerate the same map for the
  Deleted events; its order of enumeration is the same for both here.)
\<close>

theorem variants_agree:
  assumes "scan dw = (if Recursive dw then recScanner else globScanner)"
    and "if Recursive dw then walkable_tree (Tree os (path dw)) else glob_agrees os dw"
  shows "scan1 os dw = scan2 os dw"
proof (cases "Recursive dw")
  case True
  with assms show ?thesis by (simp add: scan1_recursive)
next
  case False
  with assms show ?thesis by (simp add: scan1_glob)
qed

theorem variants_agree_witness:
  "scan (watcher True ''*.txt'' stale) = recScanner \<and>
   walkable_tree (Tree os1 (path (watcher True ''*.txt'' stale))) \<and>
   scan1 os1 (watcher True ''*.txt'' stale) =
     Done ([\<lparr>Type = Changed, Path = ''w/a.txt'', Info = finfo ''a.txt'' 5\<rparr>,
            \<lparr>Type = Added, Path = ''w/sub/c.txt'', Info = finfo ''c.txt'' 2\<rparr>,
            \<lparr>Type = Deleted, Path = ''w/old.txt'', Info = finfo ''old.txt'' 1\<rparr>],
           watcher True ''*.txt''
             [(''w/a.txt'', finfo ''a.txt'' 5), (''w/sub/c.txt'', finfo ''c.txt'' 2)]) \<and>
   scan (watcher False ''*.txt'' stale) = globScanner \<and>
   glob_agrees os1 (watcher False ''*.txt'' stale) \<and>
   scan1 os1 (watcher False ''*.txt'' stale) =
     Done ([\<lparr>Type = Changed, Path = ''w/a.txt'', Info = finfo ''a.txt'' 5\<rparr>,
            \<lparr>Type = Deleted, Path = ''w/old.txt'', Info = finfo ''old.txt'' 1\<rparr>],
           watcher False ''*.txt'' [(''w/a.txt'', finfo ''a.txt'' 5)])"
proof -
  have r: "scan (watcher True ''*.txt'' stale) =
      (if Recursive (watcher True ''*.txt'' stale) then recScanner else globScanner)"
    and g: "scan (watcher False ''*.txt'' stale) =
      (if Recursive (watcher False ''*.txt'' stale) then recScanner else globScanner)"
    and p: "path (watcher True ''*.txt'' stale) = ''w''"
    and f: "Recursive (watcher True ''*.txt'' stale)" "\<not> Recursive (watcher False ''*.txt'' stale)"
    by (simp_all add: watcher_def)
  have wr: "if Recursive (watcher True ''*.txt'' stale)
      then walkable_tree (Tree os1 (path (watcher True ''*.txt'' stale)))
      else glob_agrees os1 (watcher True ''*.txt'' stale)"
    by (simp add: f p walkable_os1)
  have wg: "if Recursive (watcher False ''*.txt'' stale)
      then walkable_tree (Tree os1 (path (watcher False ''*.txt'' stale)))
      else glob_agrees os1 (watcher False ''*.txt'' stale)"
    by (simp add: f glob_agrees_os1)
  from variants_agree [OF r wr] variants_agree [OF g wg] r g f p walkable_os1 glob_agrees_os1
  show ?thesis by (simp add: scan2_os1_stale scan2_os1_glob_stale)
qed

text \<open>
  C8, as stated, fails. In recursive mode, at a directory that cannot be read,
  \<^verbatim>\<open>scan1\<close> returns nil for the directory and goes on to the file after it, while
  \<^verbatim>\<open>recScanner\<close> returns the error and the walk ends before the file. In
  non-recursive mode, with a pattern that holds a separator, \<^verbatim>\<open>scan1\<close> globs the
  pattern under the watched path, while \<^verbatim>\<open>scan2\<close> matches the pattern against base
  names, which hold no separator.
\<close>

theorem variants_differ:
  "scan (watcher True ''*.txt'' []) = recScanner \<and>
   scan1 os_unreadable (watcher True ''*.txt'' []) =
     Done ([\<lparr>Type = Added, Path = ''w/b.txt'', Info = finfo ''b.txt'' 4\<rparr>],
           watcher True ''*.txt'' [(''w/b.txt'', finfo ''b.txt'' 4)]) \<and>
   scan2 os_unreadable (watcher True ''*.txt'' []) = Done ([], watcher True ''*.txt'' []) \<and>
   scan1 os_unreadable (watcher True ''*.txt'' []) \<noteq> scan2 os_unreadable (watcher True ''*.txt'' []) \<and>
   scan (watcher False ''sub/*.txt'' []) = globScanner \<and>
   scan1 os1 (watcher False ''sub/*.txt'' []) =
     Done ([\<lparr>Type = Added, Path = ''w/sub/c.txt'', Info = finfo ''c.txt'' 2\<rparr>],
           watcher False ''sub/*.txt'' [(''w/sub/c.txt'', finfo ''c.txt'' 2)]) \<and>
   scan2 os1 (watcher False ''sub/*.txt'' []) = Done ([], watcher False ''sub/*.txt'' []) \<and>
   scan1 os1 (watcher False ''sub/*.txt'' []) \<noteq> scan2 os1 (watcher False ''sub/*.txt'' [])"
  by (simp add: scan1_os_unreadable_fresh scan2_os_unreadable_fresh scan1_os1_slash
      scan2_os1_slash) (simp add: watcher_def)

text \<open>
  C9. \<^verbatim>\<open>Stop\<close> has no guard: on a watcher whose ticker is nil it calls the method on
  nil. That is the state of a watcher just made by \<^verbatim>\<open>New\<close>, of a watcher that
  \<^verbatim>\<open>Stop\<close> has stopped, and of every watcher that is not running.
\<close>

theorem Stop_idle_panics:
  "(New os p = Inr dw \<longrightarrow> Stop dw = Panic) \<and>
   (Stop dw0 = Done dw1 \<longrightarrow> Stop dw1 = Panic) \<and>
   (\<not> Running dw2 \<longrightarrow> Stop dw2 = Panic)"
  by (auto simp: New_def Stop_def Running_def split: sum.splits if_splits option.splits)

theorem Stop_idle_panics_witness:
  "New os1 ''w'' = Inr (watcher False ''*'' []) \<and>
   Stop (watcher False ''*'' []) = Panic \<and>
   Stop ((watcher False ''*'' [])\<lparr>ticker := Some (Ticker 2000000000)\<rparr>) = Done (watcher False ''*'' []) \<and>
   \<not> Running (watcher False ''*'' [])"
proof -
  have n: "New os1 ''w'' = Inr (watcher False ''*'' [])"
    by (simp add: New_def os1_def sample_defs)
  have s: "Stop ((watcher False ''*'' [])\<lparr>ticker := Some (Ticker 2000000000)\<rparr>) = Done (watcher False ''*'' [])"
    by (simp add: Stop_def watcher_def)
  have r: "\<not> Running (watcher False ''*'' [])"
    by (simp add: Running_def watcher_def)
  from Stop_idle_panics [of os1 "''w''" "watcher False ''*'' []" _ _ "watcher False ''*'' []"] n r
  have "Stop (watcher False ''*'' []) = Panic" by blast
  with n s r show ?thesis by simp
qed

text \<open>
  C10. A pair with nil metadata among those the scanner yields makes \<^verbatim>\<open>scan2\<close> panic:
  the loop calls \<^verbatim>\<open>IsDir\<close> on it before anything else. \<^verbatim>\<open>recScanner\<close> yields
  such a pair. When \<^verbatim>\<open>Lstat\<close> fails on the watched path it sends exactly that path
  with nil metadata. When \<^verbatim>\<open>Lstat\<close> fails on an entry of the watched directory, after
  entries that the walk reads without error, it sends the entry with nil metadata, and
  nothing after it. The walk function of \<^verbatim>\<open>scan1\<close> calls \<^verbatim>\<open>IsDir\<close> on nil
  metadata as well.
\<close>

theorem nil_metadata_panics:
  "((p, None) \<in> set (scan dw os (path dw)) \<longrightarrow> scan2 os dw = Panic) \<and>
   (lstat (Tree os q) = Inl err \<longrightarrow> recScanner os q = [(q, None)]) \<and>
   (Tree os q = Node (Inr info) None (pre @ (name, Node (Inl err) re es) # rest) \<and>
    IsDir info \<and> walkable_names pre \<and> err \<noteq> SkipDir \<longrightarrow>
      recScanner os q =
        (q, Some info) # visits_names (Join os) q pre @ [(Join os q name, None)]) \<and>
   (lstat (Tree os (path dw')) = Inl err \<and> Recursive dw' \<longrightarrow> scan1 os dw' = Panic)"
proof -
  have 1: "scan2 os dw = Panic" if "(p, None) \<in> set (scan dw os (path dw))"
    using that by (auto simp: scan2_eq)
  show ?thesis
    using 1 recScanner_Lstat_fails [of os q err] scan1_Lstat_fails [of os dw' err]
      recScanner_child_Lstat_fails [of os q info pre name err re es rest]
    by blast
qed

theorem nil_metadata_panics_witness:
  "Recursive (watcher True ''*.txt'' []) \<and>
   Tree os_nostat ''w'' =
     Node (Inr (dinfo ''w'')) None
       ([] @ (''a'', Node (Inl (SysError ''EACCES'')) None []) # [mk_file ''b.txt'' 4]) \<and>
   scan (watcher True ''*.txt'' []) os_nostat (path (watcher True ''*.txt'' [])) =
     [(''w'', Some (dinfo ''w'')), (''w/a'', None)] \<and>
   scan2 os_nostat (watcher True ''*.txt'' []) = Panic \<and>
   scan1 os_nostat (watcher True ''*.txt'' []) = Panic \<and>
   lstat (Tree os1 ''gone'') = Inl (SysError ''ENOENT'') \<and>
   recScanner os1 ''gone'' = [(''gone'', None)] \<and>
   scan2 os1 ((watcher True ''*.txt'' [])\<lparr>path := ''gone''\<rparr>) = Panic \<and>
   scan1 os1 ((watcher True ''*.txt'' [])\<lparr>path := ''gone''\<rparr>) = Panic"
proof -
  let ?w = "watcher True ''*.txt'' []"
  let ?g = "(watcher True ''*.txt'' [])\<lparr>path := ''gone''\<rparr>"
  have t: "Tree os_nostat ''w'' =
     Node (Inr (dinfo ''w'')) None
       ([] @ (''a'', Node (Inl (SysError ''EACCES'')) None []) # [mk_file ''b.txt'' 4])"
    by (simp add: os_nostat_def sample_os_def mk_dir_def)
  have d: "IsDir (dinfo ''w'')" "walkable_names []" "SysError ''EACCES'' \<noteq> SkipDir"
    by (simp_all add: dinfo_def)
  have w: "path ?w = ''w''" "scan ?w = recScanner" "Recursive ?w"
    and g: "path ?g = ''gone''" "Recursive ?g" "scan ?g = recScanner"
    by (simp_all add: watcher_def)
  have j: "Join os_nostat ''w'' ''a'' = ''w/a''" by (simp add: os_nostat_def sample_os_def)
  from nil_metadata_panics [of _ ?w os_nostat "''w''" "SysError ''EACCES''" "dinfo ''w''" "[]"
      "''a''" None "[]" "[mk_file ''b.txt'' 4]" ?g] t d
  have "recScanner os_nostat ''w'' =
      (''w'', Some (dinfo ''w'')) # visits_names (Join os_nostat) ''w'' [] @
        [(Join os_nostat ''w'' ''a'', None)]"
    by blast
  then have s: "scan ?w os_nostat (path ?w) = [(''w'', Some (dinfo ''w'')), (''w/a'', None)]"
    by (simp add: w j)
  then have m: "(''w/a'', None) \<in> set (scan ?w os_nostat (path ?w))" by simp
  have l: "lstat (Tree os1 ''gone'') = Inl (SysError ''ENOENT'')"
    by (simp add: os1_def sample_defs)
  from nil_metadata_panics [of "''w/a''" ?w os_nostat "''gone''" _ _ _ _ _ _ _ ?g] m
  have 1: "scan2 os_nostat ?w = Panic" by blast
  from nil_metadata_panics [of "''gone''" ?g os1 "''gone''" "SysError ''ENOENT''" _ _ _ _ _ _ ?g] l g
  have 2: "recScanner os1 ''gone'' = [(''gone'', None)]" and 3: "scan1 os1 ?g = Panic"
    by simp_all
  from 2 g have "(''gone'', None) \<in> set (scan ?g os1 (path ?g))" by simp
  with nil_metadata_panics [of "''gone''" ?g os1 "''gone''" "SysError ''ENOENT''" _ _ _ _ _ _ ?g]
  have 4: "scan2 os1 ?g = Panic" by blast
  from t s 1 2 3 4 l w scan1_os_nostat [of "[]"] show ?thesis by simp
qed

end
